theory Spec2Isabelle
  imports Main "HOL-Library.Transitive_Closure_Table"
begin

section \<open>Data model (src/unnamed/part\_004: the types module)\<close>

text \<open>
  The solver works on JavaScript numbers. All quantities of a transportation problem
  (costs, supplies, demands, allocations, potentials) are integers here, on which the
  arithmetic of the source (\<open>+\<close>, \<open>-\<close>, \<open>*\<close>, \<open>Math.min\<close>, comparisons) is exact,
  so they are modelled by \<open>int\<close>. The source uses two values outside the integers:
  \<open>Infinity\<close> (the initial value of \<open>theta\<close> and \<open>minDelta\<close>), modelled by the type
  \<open>jsnum\<close>, and \<open>null\<close> (an empty allocation, an unknown potential), modelled by
  \<open>None\<close>.

  A JavaScript exception, and a result that would hold \<open>undefined\<close>, \<open>NaN\<close> or
  \<open>Infinity\<close> where the model has an integer, are values of the type \<open>error\<close>.
\<close>

datatype error =
    TypeError       \<comment> \<open>the source throws: a property of \<open>undefined\<close> is read\<close>
  | NonNumeric      \<comment> \<open>the source returns, but writes \<open>undefined\<close>, \<open>NaN\<close> or \<open>Infinity\<close> into a numeric field\<close>
  | FuelExhausted   \<comment> \<open>the recursion bound of the model of \<open>findLoop\<close> is used up\<close>

datatype jsnum = Fin int | Infinity

fun jsnum_less :: "int \<Rightarrow> jsnum \<Rightarrow> bool" where
  "jsnum_less a (Fin b) = (a < b)"
| "jsnum_less a Infinity = True"

fun jsnum_ge0 :: "jsnum \<Rightarrow> bool" where
  "jsnum_ge0 (Fin b) = (0 \<le> b)"
| "jsnum_ge0 Infinity = True"

datatype Highlight = Entering | Leaving | LoopPlus | LoopMinus | NoHighlight

record Cell =
  row :: nat
  col :: nat
  cost :: int
  allocation :: "int option"
  isBasin :: bool
  highlight :: "Highlight option"
  opportunityCost :: "int option"

type_synonym Grid = "Cell list list"

text \<open>A \<open>LoopNode\<close> is the object \<open>{r, c}\<close> of the source.\<close>

type_synonym LoopNode = "nat \<times> nat"

record ProblemState =
  costs :: "int list list"
  supplyVec :: "int list"    \<comment> \<open>the field \<open>supply\<close>\<close>
  demandVec :: "int list"    \<comment> \<open>the field \<open>demand\<close>\<close>
  initialSupply :: "int list"
  initialDemand :: "int list"
  rowCount :: nat
  colCount :: nat

section \<open>Helpers (src/utils/solver.ts)\<close>

text \<open>\<open>grid[r][c]\<close> is defined when the indices are in range.\<close>

definition has_cell :: "'a list list \<Rightarrow> nat \<Rightarrow> nat \<Rightarrow> bool" where
  "has_cell g r c = (r < length g \<and> c < length (g ! r))"

text \<open>Every \<open>m[r][c]\<close> with \<open>r < rows\<close> and \<open>c < cols\<close> is defined.\<close>

definition covers :: "'a list list \<Rightarrow> nat \<Rightarrow> nat \<Rightarrow> bool" where
  "covers m rows cols = (rows \<le> length m \<and> list_all (\<lambda>rw. cols \<le> length rw) (take rows m))"

text \<open>The index pairs of the nested loops \<open>for r < rows, for c < cols\<close>, in scan order.\<close>

definition scan :: "nat \<Rightarrow> nat \<Rightarrow> (nat \<times> nat) list" where
  "scan rows cols = concat (map (\<lambda>r. map (\<lambda>c. (r, c)) [0..<cols]) [0..<rows])"

text \<open>The assignment \<open>grid[r][c] = f(grid[r][c])\<close>, for indices in range.\<close>

definition upd :: "'a list list \<Rightarrow> nat \<Rightarrow> nat \<Rightarrow> ('a \<Rightarrow> 'a) \<Rightarrow> 'a list list" where
  "upd g r c f = g[r := (g ! r)[c := f (g ! r ! c)]]"

definition empty_cell :: "int list list \<Rightarrow> nat \<Rightarrow> nat \<Rightarrow> Cell" where
  "empty_cell cs r c =
     \<lparr> row = r, col = c, cost = cs ! r ! c, allocation = None, isBasin = False,
       highlight = Some NoHighlight, opportunityCost = None \<rparr>"

text \<open>
  \<open>createEmptyGrid\<close> reads \<open>costs[r][c]\<close> for every \<open>r < rows\<close>, \<open>c < cols\<close>: a missing
  row \<open>costs[r]\<close> throws, a short row gives the cost \<open>undefined\<close>.
\<close>

definition check_costs :: "int list list \<Rightarrow> nat \<Rightarrow> nat \<Rightarrow> error option" where
  "check_costs cs rows cols =
     (if 0 < cols \<and> length cs < rows then Some TypeError
      else if \<not> list_all (\<lambda>rw. cols \<le> length rw) (take rows cs) then Some NonNumeric
      else None)"

definition createEmptyGrid :: "nat \<Rightarrow> nat \<Rightarrow> int list list \<Rightarrow> error + Grid" where
  "createEmptyGrid rows cols cs =
     (case check_costs cs rows cols of
        Some e \<Rightarrow> Inl e
      | None \<Rightarrow> Inr (map (\<lambda>r. map (\<lambda>c. empty_cell cs r c) [0..<cols]) [0..<rows]))"

text \<open>\<open>if (c.allocation) sum += c.allocation * c.cost\<close>: \<open>null\<close> and \<open>0\<close> are falsy.\<close>

definition add_cell_cost :: "Cell \<Rightarrow> int \<Rightarrow> int" where
  "add_cell_cost x acc =
     (case allocation x of
        None \<Rightarrow> acc
      | Some a \<Rightarrow> if a \<noteq> 0 then acc + a * cost x else acc)"

definition calculateTotalCost :: "Grid \<Rightarrow> int" where
  "calculateTotalCost g = fold (\<lambda>rw acc. fold add_cell_cost rw acc) g 0"

section \<open>The initial solution: \<open>solveLeastCost\<close>\<close>

text \<open>
  \<open>s[i] > 0\<close> on a working copy: an index out of range reads \<open>undefined\<close>, and
  \<open>undefined > 0\<close> is false.
\<close>

definition gt0 :: "int list \<Rightarrow> nat \<Rightarrow> bool" where
  "gt0 xs i = (i < length xs \<and> 0 < xs ! i)"

text \<open>The list \<open>cellsList\<close> of \<open>{r, c, cost}\<close>, before sorting.\<close>

definition cells_of :: "int list list \<Rightarrow> nat \<Rightarrow> nat \<Rightarrow> (nat \<times> nat \<times> int) list" where
  "cells_of cs rows cols = map (\<lambda>(r, c). (r, c, cs ! r ! c)) (scan rows cols)"

text \<open>
  \<open>cellsList.sort((a, b) => a.cost - b.cost)\<close>: \<open>Array.prototype.sort\<close> is stable,
  as is \<open>sort_key\<close>.
\<close>

definition sorted_cells :: "int list list \<Rightarrow> nat \<Rightarrow> nat \<Rightarrow> (nat \<times> nat \<times> int) list" where
  "sorted_cells cs rows cols = sort_key (\<lambda>(r, c, k). k) (cells_of cs rows cols)"

text \<open>The body of the first loop over \<open>cellsList\<close>; the state is \<open>(grid, s, d, basicCellsCount)\<close>.\<close>

definition allocate_step ::
  "nat \<times> nat \<times> int \<Rightarrow> Grid \<times> int list \<times> int list \<times> nat \<Rightarrow> Grid \<times> int list \<times> int list \<times> nat" where
  "allocate_step cell st =
     (case (cell, st) of ((r, c, k), (g, s, d, n)) \<Rightarrow>
        if gt0 s r \<and> gt0 d c then
          (let a = min (s ! r) (d ! c)
           in (upd g r c (\<lambda>x. x\<lparr>allocation := Some a, isBasin := True\<rparr>),
               s[r := s ! r - a], d[c := d ! c - a], Suc n))
        else (g, s, d, n))"

text \<open>The second loop (degeneracy handling), with its \<open>break\<close>.\<close>

fun fill_zero :: "(nat \<times> nat \<times> int) list \<Rightarrow> Grid \<Rightarrow> int \<Rightarrow> Grid" where
  "fill_zero [] g needed = g"
| "fill_zero ((r, c, k) # cells) g needed =
     (if needed \<le> 0 then g
      else if \<not> isBasin (g ! r ! c) then
        fill_zero cells (upd g r c (\<lambda>x. x\<lparr>isBasin := True, allocation := Some 0\<rparr>)) (needed - 1)
      else fill_zero cells g needed)"

definition solveLeastCost :: "ProblemState \<Rightarrow> error + Grid" where
  "solveLeastCost problem =
     (let rows = rowCount problem; cols = colCount problem
      in case createEmptyGrid rows cols (costs problem) of
           Inl e \<Rightarrow> Inl e
         | Inr grid \<Rightarrow>
             (let cellsList = sorted_cells (costs problem) rows cols;
                  (grid1, s, d, basicCellsCount) =
                     fold allocate_step cellsList (grid, initialSupply problem, initialDemand problem, 0);
                  requiredBasic = int rows + int cols - 1
              in Inr (if int basicCellsCount < requiredBasic
                      then fill_zero cellsList grid1 (requiredBasic - int basicCellsCount)
                      else grid1)))"

section \<open>Potentials: \<open>calculatePotentials\<close>\<close>

text \<open>
  \<open>u[i] === null\<close>: an index out of range reads \<open>undefined\<close>, which is not \<open>null\<close>.
\<close>

definition is_null :: "'a option list \<Rightarrow> nat \<Rightarrow> bool" where
  "is_null xs i = (i < length xs \<and> xs ! i = None)"

text \<open>The body of the two nested loops; the state is \<open>(u, v, changed)\<close>.\<close>

definition pot_step ::
  "Grid \<Rightarrow> nat \<times> nat \<Rightarrow> int option list \<times> int option list \<times> bool
     \<Rightarrow> int option list \<times> int option list \<times> bool" where
  "pot_step g rc st =
     (case (rc, st) of ((r, c), (u, v, changed)) \<Rightarrow>
        if isBasin (g ! r ! c) then
          (if \<not> is_null u r \<and> is_null v c then
             (u, v[c := Some (cost (g ! r ! c) - the (u ! r))], True)
           else if \<not> is_null v c \<and> is_null u r then
             (u[r := Some (cost (g ! r ! c) - the (v ! c))], v, True)
           else (u, v, changed))
        else (u, v, changed))"

text \<open>One pass of the \<open>while\<close> loop: \<open>changed = false\<close>, then the scan.\<close>

definition pot_pass ::
  "Grid \<Rightarrow> nat \<Rightarrow> nat \<Rightarrow> int option list \<times> int option list
     \<Rightarrow> int option list \<times> int option list \<times> bool" where
  "pot_pass g rows cols uv = fold (pot_step g) (scan rows cols) (fst uv, snd uv, False)"

definition unknowns :: "int option list \<times> int option list \<Rightarrow> nat" where
  "unknowns uv = length (filter (\<lambda>x. x = None) (fst uv)) + length (filter (\<lambda>x. x = None) (snd uv))"

lemma filter_None_update:
  "i < length xs \<Longrightarrow> xs ! i = None \<Longrightarrow>
   Suc (length (filter (\<lambda>x. x = None) (xs[i := Some y]))) = length (filter (\<lambda>x. x = None) xs)"
proof (induction xs arbitrary: i)
  case Nil then show ?case by simp
next
  case (Cons a xs)
  then show ?case by (cases i) auto
qed

lemma pot_step_unknowns:
  assumes "pot_step g rc (u, v, ch) = (u', v', ch')"
  shows "(ch' \<longrightarrow> ch \<or> unknowns (u', v') < unknowns (u, v)) \<and> unknowns (u', v') \<le> unknowns (u, v)"
proof -
  obtain r c where rc: "rc = (r, c)" by (cases rc)
  consider (a) "isBasin (g ! r ! c)" "\<not> is_null u r" "is_null v c"
    | (b) "isBasin (g ! r ! c)" "\<not> (\<not> is_null u r \<and> is_null v c)" "\<not> is_null v c" "is_null u r"
    | (c) "u' = u" "v' = v" "ch' = ch"
    using assms unfolding pot_step_def rc by (auto split: if_splits)
  then show ?thesis
  proof cases
    case a
    then have "u' = u" "v' = v[c := Some (cost (g ! r ! c) - the (u ! r))]"
      using assms unfolding pot_step_def rc by auto
    moreover have "Suc (length (filter (\<lambda>x. x = None) (v[c := Some (cost (g ! r ! c) - the (u ! r))])))
        = length (filter (\<lambda>x. x = None) v)"
      using a by (intro filter_None_update) (auto simp: is_null_def)
    ultimately show ?thesis by (simp add: unknowns_def)
  next
    case b
    then have "v' = v" "u' = u[r := Some (cost (g ! r ! c) - the (v ! c))]"
      using assms unfolding pot_step_def rc by auto
    moreover have "Suc (length (filter (\<lambda>x. x = None) (u[r := Some (cost (g ! r ! c) - the (v ! c))])))
        = length (filter (\<lambda>x. x = None) u)"
      using b by (intro filter_None_update) (auto simp: is_null_def)
    ultimately show ?thesis by (simp add: unknowns_def)
  next
    case c
    then show ?thesis by simp
  qed
qed

lemma pot_fold_unknowns:
  "fold (pot_step g) cells (u, v, ch) = (u', v', ch') \<Longrightarrow>
   (ch' \<longrightarrow> ch \<or> unknowns (u', v') < unknowns (u, v)) \<and> unknowns (u', v') \<le> unknowns (u, v)"
proof (induction cells arbitrary: u v ch)
  case Nil
  then show ?case by simp
next
  case (Cons rc cells)
  obtain u1 v1 ch1 where s1: "pot_step g rc (u, v, ch) = (u1, v1, ch1)"
    by (cases "pot_step g rc (u, v, ch)")
  from Cons.prems s1 have "fold (pot_step g) cells (u1, v1, ch1) = (u', v', ch')" by simp
  from Cons.IH[OF this] pot_step_unknowns[OF s1] show ?case by auto
qed

text \<open>
  The \<open>while (changed)\<close> loop. It terminates: a pass that changes something fills an
  unknown entry, and no pass empties one.
\<close>

function pot_loop ::
  "Grid \<Rightarrow> nat \<Rightarrow> nat \<Rightarrow> int option list \<times> int option list \<Rightarrow> int option list \<times> int option list" where
  "pot_loop g rows cols uv =
     (case pot_pass g rows cols uv of
        (u', v', changed) \<Rightarrow> if changed then pot_loop g rows cols (u', v') else (u', v'))"
  by pat_completeness auto
termination
proof (relation "measure (\<lambda>(g, rows, cols, uv). unknowns uv)")
  show "wf (measure (\<lambda>(g, rows, cols, uv). unknowns uv))" by simp
next
  fix g :: Grid and rows cols :: nat and uv :: "int option list \<times> int option list"
    and u' y v' changed
  assume "(u', y) = pot_pass g rows cols uv" "(v', changed) = y" "changed"
  then have "fold (pot_step g) (scan rows cols) (fst uv, snd uv, False) = (u', v', True)"
    by (simp add: pot_pass_def)
  from pot_fold_unknowns[OF this]
  show "((g, rows, cols, u', v'), g, rows, cols, uv) \<in> measure (\<lambda>(g, rows, cols, uv). unknowns uv)"
    by simp
qed

text \<open>
  \<open>new Array(rows).fill(null)\<close>, then \<open>u[0] = 0\<close>: on an empty array the assignment
  appends.
\<close>

definition initial_u :: "nat \<Rightarrow> int option list" where
  "initial_u rows = (if rows = 0 then [Some 0] else (replicate rows None)[0 := Some 0])"

text \<open>
  The scan reads \<open>grid[r][c].isBasin\<close> for every \<open>r < rows\<close>, \<open>c < cols\<close>, in the
  first pass already; a cell that is missing throws.
\<close>

definition calculatePotentials ::
  "Grid \<Rightarrow> nat \<Rightarrow> nat \<Rightarrow> error + (int option list \<times> int option list)" where
  "calculatePotentials grid rows cols =
     (if 0 < cols \<and> \<not> covers grid rows cols then Inl TypeError
      else Inr (pot_loop grid rows cols (initial_u rows, replicate cols None)))"

section \<open>Opportunity costs: \<open>calculateOpportunityCosts\<close>\<close>

text \<open>The body of the two nested loops; the state is \<open>(newGrid, minDelta, enteringCell)\<close>.\<close>

definition delta_step ::
  "int option list \<Rightarrow> int option list \<Rightarrow> nat \<times> nat
     \<Rightarrow> Grid \<times> jsnum \<times> LoopNode option \<Rightarrow> Grid \<times> jsnum \<times> LoopNode option" where
  "delta_step u v rc st =
     (case (rc, st) of ((r, c), (newGrid, minDelta, enteringCell)) \<Rightarrow>
        if \<not> isBasin (newGrid ! r ! c) \<and> \<not> is_null u r \<and> \<not> is_null v c then
          (let delta = cost (newGrid ! r ! c) - (the (u ! r) + the (v ! c));
               newGrid1 = upd newGrid r c (\<lambda>x. x\<lparr>opportunityCost := Some delta\<rparr>)
           in if jsnum_less delta minDelta then (newGrid1, Fin delta, Some (r, c))
              else (newGrid1, minDelta, enteringCell))
        else (upd newGrid r c (\<lambda>x. x\<lparr>opportunityCost := None\<rparr>), minDelta, enteringCell))"

text \<open>
  A non-basic cell whose potentials are not \<open>null\<close> but \<open>undefined\<close> (the index is out
  of range of \<open>u\<close> or \<open>v\<close>) gets the opportunity cost \<open>NaN\<close>.
\<close>

definition delta_nan :: "Grid \<Rightarrow> int option list \<Rightarrow> int option list \<Rightarrow> nat \<times> nat \<Rightarrow> bool" where
  "delta_nan g u v rc =
     (case rc of (r, c) \<Rightarrow>
        \<not> isBasin (g ! r ! c) \<and> \<not> is_null u r \<and> \<not> is_null v c \<and> (length u \<le> r \<or> length v \<le> c))"

text \<open>
  The loops run over \<open>r < newGrid.length\<close> and \<open>c < newGrid[0].length\<close>; a row shorter
  than row 0 throws at \<open>newGrid[r][c].isBasin\<close>. The copy \<open>newGrid\<close> of the grid is the
  grid itself in the model.
\<close>

definition calculateOpportunityCosts ::
  "Grid \<Rightarrow> int option list \<Rightarrow> int option list \<Rightarrow> error + (Grid \<times> jsnum \<times> LoopNode option)" where
  "calculateOpportunityCosts grid u v =
     (let rows = length grid; cols = (if grid = [] then 0 else length (grid ! 0))
      in if \<not> covers grid rows cols then Inl TypeError
         else if list_ex (delta_nan grid u v) (scan rows cols) then Inl NonNumeric
         else Inr (fold (delta_step u v) (scan rows cols) (grid, Infinity, None)))"

section \<open>The closed loop: \<open>findLoop\<close>\<close>

text \<open>
  The candidates of a row move from \<open>current\<close>: every column \<open>c\<close> other than the
  current one that closes the loop (\<open>c === start.c && current.r === start.r\<close>) or holds
  a basic cell. The test of the second kind reads \<open>grid[current.r][c].isBasin\<close>, which
  throws on a missing cell.
\<close>

definition row_next :: "Grid \<Rightarrow> nat \<Rightarrow> LoopNode \<Rightarrow> LoopNode \<Rightarrow> error + LoopNode list" where
  "row_next grid cols start current =
     (let cands = filter (\<lambda>c. c \<noteq> snd current) [0..<cols];
          back = (\<lambda>c. c = snd start \<and> fst current = fst start)
      in if list_ex (\<lambda>c. \<not> back c \<and> \<not> has_cell grid (fst current) c) cands then Inl TypeError
         else Inr (map (\<lambda>c. (fst current, c))
                    (filter (\<lambda>c. back c \<or> isBasin (grid ! fst current ! c)) cands)))"

text \<open>The candidates of a column move, likewise.\<close>

definition col_next :: "Grid \<Rightarrow> nat \<Rightarrow> LoopNode \<Rightarrow> LoopNode \<Rightarrow> error + LoopNode list" where
  "col_next grid rows start current =
     (let cands = filter (\<lambda>r. r \<noteq> fst current) [0..<rows];
          back = (\<lambda>r. r = fst start \<and> snd current = snd start)
      in if list_ex (\<lambda>r. \<not> back r \<and> \<not> has_cell grid r (snd current)) cands then Inl TypeError
         else Inr (map (\<lambda>r. (r, snd current))
                    (filter (\<lambda>r. back r \<or> isBasin (grid ! r ! snd current)) cands)))"

definition nextNodes ::
  "Grid \<Rightarrow> nat \<Rightarrow> nat \<Rightarrow> LoopNode \<Rightarrow> LoopNode \<Rightarrow> bool \<Rightarrow> error + LoopNode list" where
  "nextNodes grid rows cols start current isHorizontal =
     (if isHorizontal then row_next grid cols start current else col_next grid rows start current)"

text \<open>
  The recursive closure \<open>search\<close> works on two mutable variables of \<open>findLoop\<close>: the
  array \<open>path\<close> and the set \<open>visited\<close> (of the keys \<open>"r,c"\<close>, one for each pair). The
  model passes both as a state and returns them with the boolean.

  \<open>search_from\<close> is the \<open>for (const next of nextNodes)\<close> loop with the two statements
  that follow it; its first argument stands for the recursive call of \<open>search\<close>. The
  first argument of \<open>search\<close> bounds the depth of the recursion.
\<close>

type_synonym search_state = "LoopNode list \<times> LoopNode set"

type_synonym search_result = "error + (bool \<times> search_state)"

fun search_from ::
  "(LoopNode \<Rightarrow> bool \<Rightarrow> search_state \<Rightarrow> search_result)
     \<Rightarrow> LoopNode \<Rightarrow> LoopNode \<Rightarrow> bool \<Rightarrow> LoopNode list \<Rightarrow> search_state \<Rightarrow> search_result" where
  "search_from rec start current isHorizontal [] st =
     Inr (False, (butlast (fst st), snd st - {current}))"
| "search_from rec start current isHorizontal (next # rest) st =
     (if 2 \<le> length (fst st) \<and> fst st ! (length (fst st) - 2) = next then
        search_from rec start current isHorizontal rest st
      else if next \<notin> snd st \<or> next = start then
        (case rec next (\<not> isHorizontal) st of
           Inl e \<Rightarrow> Inl e
         | Inr (found, st') \<Rightarrow>
             if found then Inr (True, st')
             else search_from rec start current isHorizontal rest st')
      else search_from rec start current isHorizontal rest st)"

primrec search ::
  "nat \<Rightarrow> Grid \<Rightarrow> nat \<Rightarrow> nat \<Rightarrow> LoopNode \<Rightarrow> LoopNode \<Rightarrow> bool \<Rightarrow> search_state \<Rightarrow> search_result" where
  "search 0 grid rows cols start current isHorizontal st = Inl FuelExhausted"
| "search (Suc fuel) grid rows cols start current isHorizontal st =
     (let path = fst st @ [current]; visited = insert current (snd st)
      in if 4 \<le> length path \<and> current = start then Inr (True, (path, visited))
         else if 1 < length path \<and> current = start then Inr (False, (butlast path, visited))
         else (case nextNodes grid rows cols start current isHorizontal of
                 Inl e \<Rightarrow> Inl e
               | Inr nexts \<Rightarrow>
                   search_from (search fuel grid rows cols start) start current isHorizontal nexts
                     (path, visited)))"

text \<open>
  \<open>findLoop\<close>: \<open>grid[0].length\<close> throws on an empty grid. A path has at most one node
  for each cell of the grid, the start (which may lie outside the grid) and the closing
  node, which bounds the depth of the recursion.
\<close>

definition findLoop :: "LoopNode \<Rightarrow> Grid \<Rightarrow> error + LoopNode list option" where
  "findLoop start grid =
     (if grid = [] then Inl TypeError
      else
        (let rows = length grid; cols = length (grid ! 0); fuel = rows * cols + 3
         in case search fuel grid rows cols start start True ([], {}) of
              Inl e \<Rightarrow> Inl e
            | Inr (found, st) \<Rightarrow>
                if found then Inr (Some (fst st))
                else (case search fuel grid rows cols start start False ([], {}) of
                        Inl e \<Rightarrow> Inl e
                      | Inr (found', st') \<Rightarrow> if found' then Inr (Some (fst st')) else Inr None)))"

section \<open>The pivot: \<open>applyPivot\<close>\<close>

text \<open>
  The first loop, over the odd positions \<open>i = 1, 3, ...\<close> of the loop; the state is
  \<open>(theta, leavingNode)\<close>.
\<close>

definition theta_step :: "Grid \<Rightarrow> LoopNode \<Rightarrow> jsnum \<times> LoopNode option \<Rightarrow> jsnum \<times> LoopNode option" where
  "theta_step grid node st =
     (case allocation (grid ! fst node ! snd node) of
        None \<Rightarrow> st
      | Some alloc \<Rightarrow> if jsnum_less alloc (fst st) then (Fin alloc, Some node) else st)"

definition minus_nodes :: "LoopNode list \<Rightarrow> LoopNode list" where
  "minus_nodes loop = map (\<lambda>i. loop ! i) (filter odd [0..<length loop])"

definition find_theta :: "Grid \<Rightarrow> LoopNode list \<Rightarrow> jsnum \<times> LoopNode option" where
  "find_theta grid loop = fold (theta_step grid) (minus_nodes loop) (Infinity, None)"

text \<open>The deep copy: \<open>{...c, allocation: c.allocation ?? 0}\<close>.\<close>

definition copy_cell :: "Cell \<Rightarrow> Cell" where
  "copy_cell x = x\<lparr>allocation := Some (case allocation x of None \<Rightarrow> 0 | Some a \<Rightarrow> a)\<rparr>"

text \<open>The second loop, over the positions \<open>i < loop.length - 1\<close>.\<close>

definition apply_step :: "int \<Rightarrow> LoopNode list \<Rightarrow> nat \<Rightarrow> Grid \<Rightarrow> Grid" where
  "apply_step theta loop i newGrid =
     (let node = loop ! i
      in if even i then
           upd newGrid (fst node) (snd node)
             (\<lambda>x. x\<lparr>allocation := Some (the (allocation x) + theta), isBasin := True\<rparr>)
         else
           upd newGrid (fst node) (snd node)
             (\<lambda>x. x\<lparr>allocation := Some (the (allocation x) - theta)\<rparr>))"

definition cleanup_cell :: "Cell \<Rightarrow> Cell" where
  "cleanup_cell x = (if \<not> isBasin x then x\<lparr>allocation := None\<rparr> else x)"

text \<open>
  The positions of the loop that \<open>applyPivot\<close> dereferences in the grid: the odd ones,
  those before the last, and position 0.
\<close>

definition touched :: "LoopNode list \<Rightarrow> LoopNode list" where
  "touched loop = map (\<lambda>i. loop ! i) (filter (\<lambda>i. odd i \<or> i = 0 \<or> Suc i < length loop) [0..<length loop])"

text \<open>
  \<open>applyPivot\<close> throws when the loop is empty (\<open>loop[0].r\<close>) or a node it dereferences is
  not a cell of the grid. When no odd position holds an allocation, \<open>theta\<close> stays
  \<open>Infinity\<close>, which the second loop, if it runs at all, writes into the grid.
\<close>

definition applyPivot :: "Grid \<Rightarrow> LoopNode list \<Rightarrow> error + (Grid \<times> jsnum)" where
  "applyPivot grid loop =
     (if loop = [] \<or> list_ex (\<lambda>node. \<not> has_cell grid (fst node) (snd node)) (touched loop)
      then Inl TypeError
      else
        (case find_theta grid loop of (theta, leavingNode) \<Rightarrow>
           (case theta of
              Infinity \<Rightarrow>
                if 2 \<le> length loop then Inl NonNumeric
                else Inr (map (map cleanup_cell)
                           (upd (map (map copy_cell) grid) (fst (loop ! 0)) (snd (loop ! 0))
                              (\<lambda>x. x\<lparr>isBasin := True\<rparr>)),
                          Infinity)
            | Fin t \<Rightarrow>
                (let newGrid = map (map copy_cell) grid;
                     newGrid1 = fold (apply_step t loop) [0..<length loop - 1] newGrid;
                     newGrid2 = (case leavingNode of
                                   None \<Rightarrow> newGrid1
                                 | Some node \<Rightarrow>
                                     upd newGrid1 (fst node) (snd node)
                                       (\<lambda>x. x\<lparr>isBasin := False, allocation := None\<rparr>));
                     start = loop ! 0;
                     newGrid3 = upd newGrid2 (fst start) (snd start) (\<lambda>x. x\<lparr>isBasin := True\<rparr>)
                 in Inr (map (map cleanup_cell) newGrid3, Fin t)))))"

section \<open>One full iteration: \<open>performFullIteration\<close>\<close>

text \<open>
  The three shapes of the object that \<open>performFullIteration\<close> returns:
  \<open>{isOptimal: true, grid, cost}\<close>, \<open>{isError: true, message}\<close> and
  \<open>{isOptimal: false, grid, cost, theta}\<close>. The two messages say that no entering
  variable was found, and that no closed loop was found.
\<close>

datatype Message = NoEnteringVariable | NoClosedLoop

datatype IterationResult =
    IsOptimal Grid int
  | IsError Message
  | NotOptimal Grid int jsnum

definition clean_cell :: "Cell \<Rightarrow> Cell" where
  "clean_cell x = x\<lparr>opportunityCost := None, highlight := Some NoHighlight\<rparr>"

definition performFullIteration :: "Grid \<Rightarrow> nat \<Rightarrow> nat \<Rightarrow> error + IterationResult" where
  "performFullIteration grid rows cols =
     (case calculatePotentials grid rows cols of
        Inl e \<Rightarrow> Inl e
      | Inr (u, v) \<Rightarrow>
          (case calculateOpportunityCosts grid u v of
             Inl e \<Rightarrow> Inl e
           | Inr (gridWithDeltas, minDelta, enteringCell) \<Rightarrow>
               if jsnum_ge0 minDelta then
                 Inr (IsOptimal gridWithDeltas (calculateTotalCost gridWithDeltas))
               else
                 (case enteringCell of
                    None \<Rightarrow> Inr (IsError NoEnteringVariable)
                  | Some cell \<Rightarrow>
                      (case findLoop cell gridWithDeltas of
                         Inl e \<Rightarrow> Inl e
                       | Inr None \<Rightarrow> Inr (IsError NoClosedLoop)
                       | Inr (Some loop) \<Rightarrow>
                           (case applyPivot gridWithDeltas loop of
                              Inl e \<Rightarrow> Inl e
                            | Inr (newGrid, theta) \<Rightarrow>
                                (let cleanGrid = map (map clean_cell) newGrid
                                 in Inr (NotOptimal cleanGrid (calculateTotalCost cleanGrid) theta)))))))"

section \<open>Grids and their updates\<close>

text \<open>A grid of \<open>rows\<close> rows of \<open>cols\<close> cells each.\<close>

definition rect :: "'a list list \<Rightarrow> nat \<Rightarrow> nat \<Rightarrow> bool" where
  "rect g rows cols = (length g = rows \<and> list_all (\<lambda>rw. length rw = cols) g)"

lemma rect_has_cell: "rect g rows cols \<Longrightarrow> has_cell g r c = (r < rows \<and> c < cols)"
  by (auto simp: rect_def has_cell_def list_all_length)

lemma rect_covers: "rect g rows cols \<Longrightarrow> covers g rows cols"
  by (auto simp: rect_def covers_def list_all_length)

lemma length_upd [simp]: "length (upd g r c f) = length g"
  by (simp add: upd_def)

lemma length_upd_nth [simp]: "length (upd g r c f ! r') = length (g ! r')"
  by (cases "r < length g"; cases "r' = r") (simp_all add: upd_def list_update_beyond)

lemma has_cell_upd [simp]: "has_cell (upd g r c f) r' c' = has_cell g r' c'"
  by (simp add: has_cell_def)

lemma upd_nth:
  "has_cell g r' c' \<Longrightarrow>
   upd g r c f ! r' ! c' = (if r' = r \<and> c' = c then f (g ! r ! c) else g ! r' ! c')"
  by (cases "r' = r") (auto simp: upd_def has_cell_def nth_list_update)

lemma rect_upd [simp]: "rect (upd g r c f) rows cols = rect g rows cols"
  by (simp add: rect_def list_all_length)

lemma scan_product: "scan rows cols = List.product [0..<rows] [0..<cols]"
  by (simp add: scan_def product_concat_map)

lemma set_scan [simp]: "set (scan rows cols) = {(r, c). r < rows \<and> c < cols}"
  by (auto simp: scan_product)

lemma distinct_scan [simp]: "distinct (scan rows cols)"
  by (simp add: scan_product distinct_product)

section \<open>A running example\<close>

text \<open>
  A balanced problem with costs \<open>[[1, 2], [2, 10]]\<close>, supplies \<open>[10, 10]\<close> and demands
  \<open>[10, 10]\<close>; \<open>ex_grid\<close> is its least-cost solution, with the basic cells \<open>(0,0)\<close>,
  \<open>(0,1)\<close> (an artificial zero) and \<open>(1,1)\<close>, and \<open>ex_u\<close>, \<open>ex_v\<close> are its potentials.
\<close>

definition mk_cell :: "nat \<Rightarrow> nat \<Rightarrow> int \<Rightarrow> int option \<Rightarrow> bool \<Rightarrow> Cell" where
  "mk_cell r c k a b =
     \<lparr> row = r, col = c, cost = k, allocation = a, isBasin = b,
       highlight = Some NoHighlight, opportunityCost = None \<rparr>"

definition ex_grid :: Grid where
  "ex_grid = [[mk_cell 0 0 1 (Some 10) True, mk_cell 0 1 2 (Some 0) True],
              [mk_cell 1 0 2 None False, mk_cell 1 1 10 (Some 10) True]]"

definition ex_u :: "int option list" where "ex_u = [Some 0, Some 8]"

definition ex_v :: "int option list" where "ex_v = [Some 1, Some 2]"

lemma rect_ex_grid: "rect ex_grid 2 2"
  by (simp add: rect_def ex_grid_def)

section \<open>Claim C9: opportunity costs and the entering cell\<close>

text \<open>
  The cells that get an opportunity cost: non-basic, with the potential of the row and
  the potential of the column both known; and the opportunity cost
  \<open>cost(r,c) - (u[r] + v[c])\<close>.
\<close>

definition eligible :: "Grid \<Rightarrow> int option list \<Rightarrow> int option list \<Rightarrow> LoopNode \<Rightarrow> bool" where
  "eligible g u v rc = (\<not> isBasin (g ! fst rc ! snd rc) \<and> u ! fst rc \<noteq> None \<and> v ! snd rc \<noteq> None)"

definition delta_of :: "Grid \<Rightarrow> int option list \<Rightarrow> int option list \<Rightarrow> LoopNode \<Rightarrow> int" where
  "delta_of g u v rc = cost (g ! fst rc ! snd rc) - (the (u ! fst rc) + the (v ! snd rc))"

definition opp_of :: "Grid \<Rightarrow> int option list \<Rightarrow> int option list \<Rightarrow> LoopNode \<Rightarrow> int option" where
  "opp_of g u v rc = (if eligible g u v rc then Some (delta_of g u v rc) else None)"

text \<open>The selection of the entering cell, read off the grid that was passed in.\<close>

definition min_step ::
  "Grid \<Rightarrow> int option list \<Rightarrow> int option list \<Rightarrow> LoopNode \<Rightarrow> jsnum \<times> LoopNode option \<Rightarrow> jsnum \<times> LoopNode option" where
  "min_step g u v rc st =
     (if eligible g u v rc \<and> jsnum_less (delta_of g u v rc) (fst st) then (Fin (delta_of g u v rc), Some rc)
      else st)"

definition in_range :: "Grid \<Rightarrow> int option list \<Rightarrow> int option list \<Rightarrow> LoopNode \<Rightarrow> bool" where
  "in_range g u v rc = (has_cell g (fst rc) (snd rc) \<and> fst rc < length u \<and> snd rc < length v)"

lemma delta_step_eq:
  assumes "in_range g u v rc"
  shows "delta_step u v rc (g, md, ec) =
           (upd g (fst rc) (snd rc) (\<lambda>x. x\<lparr>opportunityCost := opp_of g u v rc\<rparr>), min_step g u v rc (md, ec))"
  using assms
  by (cases rc) (auto simp: delta_step_def min_step_def opp_of_def eligible_def delta_of_def
      in_range_def is_null_def Let_def)

lemma upd_opp_same:
  assumes "has_cell g (fst x) (snd x)"
  shows "eligible (upd g r c (\<lambda>x. x\<lparr>opportunityCost := a\<rparr>)) u v x = eligible g u v x"
    and "delta_of (upd g r c (\<lambda>x. x\<lparr>opportunityCost := a\<rparr>)) u v x = delta_of g u v x"
  using assms by (auto simp: eligible_def delta_of_def upd_nth)

lemma delta_fold:
  assumes "\<forall>rc\<in>set cells. in_range g u v rc"
  shows "\<exists>g'. fold (delta_step u v) cells (g, md, ec) = (g', fold (min_step g u v) cells (md, ec))
           \<and> length g' = length g \<and> (\<forall>r. length (g' ! r) = length (g ! r))
           \<and> (\<forall>r c. has_cell g r c \<longrightarrow>
                 g' ! r ! c = (if (r, c) \<in> set cells then (g ! r ! c)\<lparr>opportunityCost := opp_of g u v (r, c)\<rparr>
                               else g ! r ! c))"
  using assms
proof (induction cells arbitrary: g md ec)
  case Nil
  then show ?case by simp
next
  case (Cons x cells)
  define g1 where "g1 = upd g (fst x) (snd x) (\<lambda>y. y\<lparr>opportunityCost := opp_of g u v x\<rparr>)"
  have x: "in_range g u v x" using Cons.prems by simp
  have same: "eligible g1 u v y = eligible g u v y" "delta_of g1 u v y = delta_of g u v y"
    if "has_cell g (fst y) (snd y)" for y
    using that by (simp_all add: g1_def upd_opp_same)
  have rng: "\<forall>rc\<in>set cells. in_range g1 u v rc"
    using Cons.prems by (simp add: in_range_def g1_def)
  have ms: "fold (min_step g1 u v) cells st = fold (min_step g u v) cells st" for st
    using Cons.prems
    by (intro fold_cong) (auto simp: min_step_def same in_range_def fun_eq_iff)
  from Cons.IH[OF rng, of "fst (min_step g u v x (md, ec))" "snd (min_step g u v x (md, ec))"]
  obtain g' where g': "fold (delta_step u v) cells (g1, min_step g u v x (md, ec))
        = (g', fold (min_step g1 u v) cells (min_step g u v x (md, ec)))"
      "length g' = length g1" "\<forall>r. length (g' ! r) = length (g1 ! r)"
      "\<forall>r c. has_cell g1 r c \<longrightarrow> g' ! r ! c =
          (if (r, c) \<in> set cells then (g1 ! r ! c)\<lparr>opportunityCost := opp_of g1 u v (r, c)\<rparr> else g1 ! r ! c)"
    by auto
  have "fold (delta_step u v) (x # cells) (g, md, ec) = (g', fold (min_step g u v) (x # cells) (md, ec))"
    using g'(1) delta_step_eq[OF x, folded g1_def] by (simp add: ms)
  moreover have "length g' = length g" "\<forall>r. length (g' ! r) = length (g ! r)"
    using g'(2,3) by (simp_all add: g1_def)
  moreover have "g' ! r ! c = (if (r, c) \<in> set (x # cells) then (g ! r ! c)\<lparr>opportunityCost := opp_of g u v (r, c)\<rparr>
                               else g ! r ! c)" if hc: "has_cell g r c" for r c
  proof -
    have "opp_of g1 u v (r, c) = opp_of g u v (r, c)"
      using same[of "(r, c)"] hc by (simp add: opp_of_def)
    moreover have "g1 ! r ! c = (if (r, c) = x then (g ! r ! c)\<lparr>opportunityCost := opp_of g u v x\<rparr> else g ! r ! c)"
      using hc by (cases x) (auto simp: g1_def upd_nth)
    ultimately show ?thesis
      using g'(4) hc by (auto simp: g1_def)
  qed
  ultimately show ?case by blast
qed

text \<open>Row-major order of the scan.\<close>

definition scan_before :: "LoopNode \<Rightarrow> LoopNode \<Rightarrow> bool" where
  "scan_before a b = (fst a < fst b \<or> (fst a = fst b \<and> snd a < snd b))"

lemma sorted_wrt_product:
  "sorted_wrt (<) xs \<Longrightarrow> sorted_wrt (<) ys \<Longrightarrow> sorted_wrt scan_before (List.product xs (ys :: nat list))"
  for xs :: "nat list"
proof (induction xs)
  case Nil
  then show ?case by simp
next
  case (Cons x xs)
  have "sorted_wrt scan_before (map (Pair x) ys)"
    using Cons.prems(2) by (simp add: sorted_wrt_map scan_before_def)
  moreover have "sorted_wrt scan_before (List.product xs ys)"
    using Cons by simp
  moreover have "\<forall>a\<in>set (map (Pair x) ys). \<forall>b\<in>set (List.product xs ys). scan_before a b"
    using Cons.prems(1) by (auto simp: scan_before_def)
  ultimately show ?case by (simp add: sorted_wrt_append)
qed

lemma sorted_scan: "sorted_wrt scan_before (scan rows cols)"
  unfolding scan_product by (intro sorted_wrt_product) (simp_all add: sorted_wrt_iff_nth_less[symmetric] strict_sorted_iff[symmetric])

lemma scan_split_before:
  assumes "scan rows cols = pre @ rc # post" "x \<in> set (scan rows cols)" "scan_before x rc"
  shows "x \<in> set pre"
proof -
  have s: "sorted_wrt scan_before (pre @ rc # post)" using sorted_scan[of rows cols] assms(1) by simp
  then have "\<forall>y\<in>set post. scan_before rc y" by (simp add: sorted_wrt_append)
  moreover have "\<not> scan_before rc x" "x \<noteq> rc" using assms(3) by (auto simp: scan_before_def)
  ultimately show ?thesis using assms(1,2) by auto
qed

lemma min_fold_char:
  assumes "fold (min_step g u v) cells (Infinity, None) = (md, ec)"
  shows "case ec of
           None \<Rightarrow> md = Infinity \<and> (\<forall>x\<in>set cells. \<not> eligible g u v x)
         | Some rc \<Rightarrow> md = Fin (delta_of g u v rc) \<and> eligible g u v rc \<and>
             (\<exists>pre post. cells = pre @ rc # post
                \<and> (\<forall>x\<in>set pre. eligible g u v x \<longrightarrow> delta_of g u v rc < delta_of g u v x)
                \<and> (\<forall>x\<in>set post. eligible g u v x \<longrightarrow> delta_of g u v rc \<le> delta_of g u v x))"
  using assms
proof (induction cells arbitrary: md ec rule: rev_induct)
  case Nil
  then show ?case by simp
next
  case (snoc x xs)
  obtain md1 ec1 where f1: "fold (min_step g u v) xs (Infinity, None) = (md1, ec1)"
    by (cases "fold (min_step g u v) xs (Infinity, None)")
  note IH = snoc.IH[OF f1]
  have step: "min_step g u v x (md1, ec1) = (md, ec)" using snoc.prems f1 by simp
  show ?case
  proof (cases "eligible g u v x \<and> jsnum_less (delta_of g u v x) md1")
    case True
    then have res: "md = Fin (delta_of g u v x)" "ec = Some x"
      using step by (auto simp: min_step_def)
    have "\<forall>y\<in>set xs. eligible g u v y \<longrightarrow> delta_of g u v x < delta_of g u v y"
    proof (cases ec1)
      case None
      then show ?thesis using IH by simp
    next
      case (Some rc1)
      then obtain pre post where pp: "md1 = Fin (delta_of g u v rc1)" "xs = pre @ rc1 # post"
        "\<forall>x\<in>set pre. eligible g u v x \<longrightarrow> delta_of g u v rc1 < delta_of g u v x"
        "\<forall>x\<in>set post. eligible g u v x \<longrightarrow> delta_of g u v rc1 \<le> delta_of g u v x"
        using IH by auto
      have "delta_of g u v x < delta_of g u v rc1" using True pp(1) by simp
      then show ?thesis using pp(2,3,4) by fastforce
    qed
    then have "xs @ [x] = xs @ x # [] \<and> (\<forall>y\<in>set xs. eligible g u v y \<longrightarrow> delta_of g u v x < delta_of g u v y)
        \<and> (\<forall>y\<in>set []. eligible g u v y \<longrightarrow> delta_of g u v x \<le> delta_of g u v y)" by simp
    then have "\<exists>pre post. xs @ [x] = pre @ x # post \<and> (\<forall>y\<in>set pre. eligible g u v y \<longrightarrow> delta_of g u v x < delta_of g u v y)
        \<and> (\<forall>y\<in>set post. eligible g u v y \<longrightarrow> delta_of g u v x \<le> delta_of g u v y)" by blast
    then show ?thesis using res True by simp
  next
    case False
    then have res: "md = md1" "ec = ec1" using step by (auto simp: min_step_def)
    show ?thesis
    proof (cases ec1)
      case None
      then have "md1 = Infinity" "\<forall>x\<in>set xs. \<not> eligible g u v x" using IH by simp_all
      then show ?thesis using res None False by simp
    next
      case (Some rc1)
      then obtain pre post where pp: "md1 = Fin (delta_of g u v rc1)" "eligible g u v rc1" "xs = pre @ rc1 # post"
        "\<forall>x\<in>set pre. eligible g u v x \<longrightarrow> delta_of g u v rc1 < delta_of g u v x"
        "\<forall>x\<in>set post. eligible g u v x \<longrightarrow> delta_of g u v rc1 \<le> delta_of g u v x"
        using IH by auto
      have "eligible g u v x \<longrightarrow> delta_of g u v rc1 \<le> delta_of g u v x"
        using False pp(1) by auto
      then have "\<forall>y\<in>set (post @ [x]). eligible g u v y \<longrightarrow> delta_of g u v rc1 \<le> delta_of g u v y"
        using pp(5) by auto
      moreover have "xs @ [x] = pre @ rc1 # (post @ [x])" using pp(3) by simp
      ultimately have "\<exists>pre post. xs @ [x] = pre @ rc1 # post
          \<and> (\<forall>y\<in>set pre. eligible g u v y \<longrightarrow> delta_of g u v rc1 < delta_of g u v y)
          \<and> (\<forall>y\<in>set post. eligible g u v y \<longrightarrow> delta_of g u v rc1 \<le> delta_of g u v y)"
        using pp(4) by blast
      then show ?thesis using res Some pp(1,2) by simp
    qed
  qed
qed

text \<open>What \<open>calculateOpportunityCosts\<close> returns on a rectangular grid.\<close>

lemma opportunity_costs_char:
  assumes "rect g rows cols" and "length u = rows" and "length v = cols"
  shows "\<exists>g' md ec. calculateOpportunityCosts g u v = Inr (g', md, ec)
           \<and> rect g' rows cols
           \<and> (\<forall>r<rows. \<forall>c<cols. g' ! r ! c =
                 (g ! r ! c)\<lparr>opportunityCost :=
                    (if eligible g u v (r, c) then Some (delta_of g u v (r, c)) else None)\<rparr>)
           \<and> (case ec of
                 None \<Rightarrow> md = Infinity \<and> (\<forall>r<rows. \<forall>c<cols. \<not> eligible g u v (r, c))
               | Some rc \<Rightarrow> fst rc < rows \<and> snd rc < cols \<and> eligible g u v rc
                   \<and> md = Fin (delta_of g u v rc)
                   \<and> (\<forall>r<rows. \<forall>c<cols. eligible g u v (r, c) \<longrightarrow>
                         delta_of g u v rc \<le> delta_of g u v (r, c)
                         \<and> (scan_before (r, c) rc \<longrightarrow> delta_of g u v rc < delta_of g u v (r, c))))"
proof -
  define cs where "cs = scan rows cols"
  have hc: "has_cell g r c = (r < rows \<and> c < cols)" for r c
    using assms(1) by (rule rect_has_cell)
  have scan_eq: "scan (length g) (if g = [] then 0 else length (g ! 0)) = cs"
  proof (cases "g = []")
    case True
    then show ?thesis using assms(1) by (simp add: cs_def rect_def scan_def)
  next
    case False
    then have "length (g ! 0) = cols" "length g = rows"
      using assms(1) by (auto simp: rect_def list_all_length)
    then show ?thesis using False by (simp add: cs_def)
  qed
  have cov: "covers g (length g) (if g = [] then 0 else length (g ! 0))"
    using assms(1) by (auto simp: covers_def rect_def list_all_length)
  have rng: "\<forall>rc\<in>set cs. in_range g u v rc"
    using assms(2,3) by (auto simp: cs_def in_range_def hc)
  have nonan: "\<not> list_ex (delta_nan g u v) cs"
    using assms(2,3) by (auto simp: list_ex_iff cs_def delta_nan_def)
  obtain md ec where me: "fold (min_step g u v) cs (Infinity, None) = (md, ec)"
    by (cases "fold (min_step g u v) cs (Infinity, None)")
  from delta_fold[OF rng, of Infinity None] me
  obtain g' where g': "fold (delta_step u v) cs (g, Infinity, None) = (g', md, ec)"
    "length g' = length g" "\<forall>r. length (g' ! r) = length (g ! r)"
    "\<forall>r c. has_cell g r c \<longrightarrow> g' ! r ! c =
        (if (r, c) \<in> set cs then (g ! r ! c)\<lparr>opportunityCost := opp_of g u v (r, c)\<rparr> else g ! r ! c)"
    by auto
  have call: "calculateOpportunityCosts g u v = Inr (g', md, ec)"
    using cov nonan g'(1) by (simp add: calculateOpportunityCosts_def scan_eq Let_def)
  have rect': "rect g' rows cols"
    using assms(1) g'(2,3) by (simp add: rect_def list_all_length)
  have cells: "\<forall>r<rows. \<forall>c<cols. g' ! r ! c =
      (g ! r ! c)\<lparr>opportunityCost := (if eligible g u v (r, c) then Some (delta_of g u v (r, c)) else None)\<rparr>"
    using g'(4) by (simp add: hc cs_def opp_of_def)
  have sel: "case ec of
      None \<Rightarrow> md = Infinity \<and> (\<forall>r<rows. \<forall>c<cols. \<not> eligible g u v (r, c))
    | Some rc \<Rightarrow> fst rc < rows \<and> snd rc < cols \<and> eligible g u v rc \<and> md = Fin (delta_of g u v rc)
        \<and> (\<forall>r<rows. \<forall>c<cols. eligible g u v (r, c) \<longrightarrow>
              delta_of g u v rc \<le> delta_of g u v (r, c)
              \<and> (scan_before (r, c) rc \<longrightarrow> delta_of g u v rc < delta_of g u v (r, c)))"
  proof (cases ec)
    case None
    then show ?thesis using min_fold_char[OF me] by (auto simp: cs_def)
  next
    case (Some rc)
    then obtain pre post where pp: "md = Fin (delta_of g u v rc)" "eligible g u v rc"
      "cs = pre @ rc # post"
      "\<forall>x\<in>set pre. eligible g u v x \<longrightarrow> delta_of g u v rc < delta_of g u v x"
      "\<forall>x\<in>set post. eligible g u v x \<longrightarrow> delta_of g u v rc \<le> delta_of g u v x"
      using min_fold_char[OF me] by auto
    have "rc \<in> set cs" using pp(3) by simp
    then have inb: "fst rc < rows" "snd rc < cols" by (auto simp: cs_def)
    have "delta_of g u v rc \<le> delta_of g u v (r, c)
          \<and> (scan_before (r, c) rc \<longrightarrow> delta_of g u v rc < delta_of g u v (r, c))"
      if "r < rows" "c < cols" "eligible g u v (r, c)" for r c
    proof -
      have mem: "(r, c) \<in> set cs" using that by (simp add: cs_def)
      then have "delta_of g u v rc \<le> delta_of g u v (r, c)"
        using pp(3,4,5) that(3) by fastforce
      moreover have "delta_of g u v rc < delta_of g u v (r, c)" if "scan_before (r, c) rc"
        using scan_split_before[OF pp(3)[unfolded cs_def] mem[unfolded cs_def] that] pp(4) \<open>eligible g u v (r, c)\<close>
        by blast
      ultimately show ?thesis by blast
    qed
    then show ?thesis using Some pp(1,2) inb by simp
  qed
  show ?thesis using call rect' cells sel by blast
qed

text \<open>
  Claim C9. On a rectangular grid with potentials \<open>u\<close> (one for each row) and \<open>v\<close> (one
  for each column), \<open>calculateOpportunityCosts\<close> returns a grid that differs from the
  input in the field \<open>opportunityCost\<close> only: it is \<open>cost(r,c) - (u[r] + v[c])\<close> on
  the non-basic cells whose two potentials are known, and undefined on every other cell.
  When no cell is of that kind, \<open>minDelta\<close> is \<open>Infinity\<close> and there is no entering
  cell. Otherwise the entering cell is one of these cells, \<open>minDelta\<close> is its opportunity
  cost, no cell of that kind has a smaller one, and every such cell that comes before it
  in row-major scan order has a strictly greater one: it is the first cell that attains
  the minimum. The result is a function of the input, so running it again on the same
  input gives the same entering cell.
\<close>

theorem calculateOpportunityCosts_correct:
  assumes "rect g rows cols" and "length u = rows" and "length v = cols"
  shows "\<exists>g' md ec. calculateOpportunityCosts g u v = Inr (g', md, ec)
           \<and> rect g' rows cols
           \<and> (\<forall>r<rows. \<forall>c<cols. g' ! r ! c =
                 (g ! r ! c)\<lparr>opportunityCost :=
                    (if eligible g u v (r, c) then Some (delta_of g u v (r, c)) else None)\<rparr>)
           \<and> (case ec of
                 None \<Rightarrow> md = Infinity \<and> (\<forall>r<rows. \<forall>c<cols. \<not> eligible g u v (r, c))
               | Some rc \<Rightarrow> fst rc < rows \<and> snd rc < cols \<and> eligible g u v rc
                   \<and> md = Fin (delta_of g u v rc)
                   \<and> (\<forall>r<rows. \<forall>c<cols. eligible g u v (r, c) \<longrightarrow>
                         delta_of g u v rc \<le> delta_of g u v (r, c)
                         \<and> (scan_before (r, c) rc \<longrightarrow> delta_of g u v rc < delta_of g u v (r, c))))"
  using assms by (rule opportunity_costs_char)

theorem calculateOpportunityCosts_correct_witness:
  "rect ex_grid 2 2 \<and> length ex_u = 2 \<and> length ex_v = 2
   \<and> (\<exists>g' md ec. calculateOpportunityCosts ex_grid ex_u ex_v = Inr (g', md, ec) \<and> rect g' 2 2)"
proof -
  have h: "length ex_u = 2" "length ex_v = 2" by (simp_all add: ex_u_def ex_v_def)
  from calculateOpportunityCosts_correct[OF rect_ex_grid h]
  have "\<exists>g' md ec. calculateOpportunityCosts ex_grid ex_u ex_v = Inr (g', md, ec) \<and> rect g' 2 2"
    by blast
  then show ?thesis using rect_ex_grid h by blast
qed

section \<open>The pivot, cell by cell\<close>

text \<open>The cell of a grid at a node.\<close>

definition cell :: "Grid \<Rightarrow> LoopNode \<Rightarrow> Cell" where
  "cell g n = g ! fst n ! snd n"

definition is_cell :: "Grid \<Rightarrow> LoopNode \<Rightarrow> bool" where
  "is_cell g n = has_cell g (fst n) (snd n)"

lemma cell_upd:
  "is_cell g n \<Longrightarrow> cell (upd g r c f) n = (if n = (r, c) then f (cell g n) else cell g n)"
  by (cases n) (auto simp: cell_def is_cell_def upd_nth)

lemma is_cell_upd [simp]: "is_cell (upd g r c f) n = is_cell g n"
  by (simp add: is_cell_def)

lemma is_cell_map [simp]: "is_cell (map (map f) g) n = is_cell g n"
  by (auto simp: is_cell_def has_cell_def)

lemma cell_map: "is_cell g n \<Longrightarrow> cell (map (map f) g) n = f (cell g n)"
  by (simp add: is_cell_def has_cell_def cell_def)

lemma theta_fold_char:
  assumes "fold (\<lambda>i. theta_step g (loop ! i)) idx (Infinity, None) = (th, lv)"
  shows "case lv of
           None \<Rightarrow> th = Infinity \<and> (\<forall>i\<in>set idx. allocation (cell g (loop ! i)) = None)
         | Some n \<Rightarrow> (\<exists>a pre i post. th = Fin a \<and> idx = pre @ i # post \<and> n = loop ! i
              \<and> allocation (cell g n) = Some a
              \<and> (\<forall>j\<in>set pre. \<forall>b. allocation (cell g (loop ! j)) = Some b \<longrightarrow> a < b)
              \<and> (\<forall>j\<in>set post. \<forall>b. allocation (cell g (loop ! j)) = Some b \<longrightarrow> a \<le> b))"
  using assms
proof (induction idx arbitrary: th lv rule: rev_induct)
  case Nil
  then show ?case by simp
next
  case (snoc k ks)
  obtain th1 lv1 where f1: "fold (\<lambda>i. theta_step g (loop ! i)) ks (Infinity, None) = (th1, lv1)"
    by (cases "fold (\<lambda>i. theta_step g (loop ! i)) ks (Infinity, None)")
  note IH = snoc.IH[OF f1]
  have step: "theta_step g (loop ! k) (th1, lv1) = (th, lv)" using snoc.prems f1 by simp
  show ?case
  proof (cases "\<exists>a. allocation (cell g (loop ! k)) = Some a \<and> jsnum_less a th1")
    case True
    then obtain a where a: "allocation (cell g (loop ! k)) = Some a" "jsnum_less a th1" by blast
    then have res: "th = Fin a" "lv = Some (loop ! k)"
      using step by (auto simp: theta_step_def cell_def)
    have "\<forall>j\<in>set ks. \<forall>b. allocation (cell g (loop ! j)) = Some b \<longrightarrow> a < b"
    proof (cases lv1)
      case None
      then show ?thesis using IH by simp
    next
      case (Some n1)
      then obtain a1 pre i post where pp: "th1 = Fin a1" "ks = pre @ i # post" "n1 = loop ! i"
        "allocation (cell g n1) = Some a1"
        "\<forall>j\<in>set pre. \<forall>b. allocation (cell g (loop ! j)) = Some b \<longrightarrow> a1 < b"
        "\<forall>j\<in>set post. \<forall>b. allocation (cell g (loop ! j)) = Some b \<longrightarrow> a1 \<le> b"
        using IH by auto
      have "a < a1" using a(2) pp(1) by simp
      then show ?thesis using pp(2-6) by fastforce
    qed
    then have "ks @ [k] = ks @ k # [] \<and> loop ! k = loop ! k
        \<and> allocation (cell g (loop ! k)) = Some a
        \<and> (\<forall>j\<in>set ks. \<forall>b. allocation (cell g (loop ! j)) = Some b \<longrightarrow> a < b)
        \<and> (\<forall>j\<in>set []. \<forall>b. allocation (cell g (loop ! j)) = Some b \<longrightarrow> a \<le> b)"
      using a(1) by simp
    then have "\<exists>pre i post. ks @ [k] = pre @ i # post \<and> loop ! k = loop ! i
        \<and> allocation (cell g (loop ! k)) = Some a
        \<and> (\<forall>j\<in>set pre. \<forall>b. allocation (cell g (loop ! j)) = Some b \<longrightarrow> a < b)
        \<and> (\<forall>j\<in>set post. \<forall>b. allocation (cell g (loop ! j)) = Some b \<longrightarrow> a \<le> b)"
      by blast
    then show ?thesis using res by simp
  next
    case False
    then have res: "th = th1" "lv = lv1"
      using step by (auto simp: theta_step_def cell_def split: option.splits)
    show ?thesis
    proof (cases lv1)
      case None
      then have "th1 = Infinity" "\<forall>i\<in>set ks. allocation (cell g (loop ! i)) = None" using IH by simp_all
      then show ?thesis using res None False by (cases "allocation (cell g (loop ! k))") auto
    next
      case (Some n1)
      then obtain a1 pre i post where pp: "th1 = Fin a1" "ks = pre @ i # post" "n1 = loop ! i"
        "allocation (cell g n1) = Some a1"
        "\<forall>j\<in>set pre. \<forall>b. allocation (cell g (loop ! j)) = Some b \<longrightarrow> a1 < b"
        "\<forall>j\<in>set post. \<forall>b. allocation (cell g (loop ! j)) = Some b \<longrightarrow> a1 \<le> b"
        using IH by auto
      have "\<forall>b. allocation (cell g (loop ! k)) = Some b \<longrightarrow> a1 \<le> b"
        using False pp(1) by auto
      then have "\<forall>j\<in>set (post @ [k]). \<forall>b. allocation (cell g (loop ! j)) = Some b \<longrightarrow> a1 \<le> b"
        using pp(6) by auto
      moreover have "ks @ [k] = pre @ i # (post @ [k])" using pp(2) by simp
      ultimately have "\<exists>pre i post. ks @ [k] = pre @ i # post \<and> n1 = loop ! i
          \<and> (\<forall>j\<in>set pre. \<forall>b. allocation (cell g (loop ! j)) = Some b \<longrightarrow> a1 < b)
          \<and> (\<forall>j\<in>set post. \<forall>b. allocation (cell g (loop ! j)) = Some b \<longrightarrow> a1 \<le> b)"
        using pp(3,5) by blast
      then show ?thesis using res Some pp(1,4) by simp
    qed
  qed
qed

lemma find_theta_fold:
  "find_theta g loop = fold (\<lambda>i. theta_step g (loop ! i)) (filter odd [0..<length loop]) (Infinity, None)"
  by (simp add: find_theta_def minus_nodes_def fold_map comp_def)

text \<open>What \<open>find_theta\<close> returns, by positions of the loop.\<close>

lemma find_theta_char:
  assumes "find_theta g loop = (th, lv)"
  shows "case lv of
           None \<Rightarrow> th = Infinity \<and> (\<forall>i<length loop. odd i \<longrightarrow> allocation (cell g (loop ! i)) = None)
         | Some n \<Rightarrow> (\<exists>a i. th = Fin a \<and> odd i \<and> i < length loop \<and> n = loop ! i
              \<and> allocation (cell g n) = Some a
              \<and> (\<forall>j<length loop. odd j \<longrightarrow> (\<forall>b. allocation (cell g (loop ! j)) = Some b \<longrightarrow>
                     a \<le> b \<and> (j < i \<longrightarrow> a < b))))"
proof (cases lv)
  case None
  then show ?thesis
    using theta_fold_char[OF assms[unfolded find_theta_fold]] by auto
next
  case (Some n)
  then obtain a pre i post where pp: "th = Fin a" "filter odd [0..<length loop] = pre @ i # post" "n = loop ! i"
    "allocation (cell g n) = Some a"
    "\<forall>j\<in>set pre. \<forall>b. allocation (cell g (loop ! j)) = Some b \<longrightarrow> a < b"
    "\<forall>j\<in>set post. \<forall>b. allocation (cell g (loop ! j)) = Some b \<longrightarrow> a \<le> b"
    using theta_fold_char[OF assms[unfolded find_theta_fold]] by auto
  have "i \<in> set (filter odd [0..<length loop])" using pp(2) by simp
  then have i: "odd i" "i < length loop" by auto
  have srt: "sorted_wrt (<) (pre @ i # post)"
    using pp(2)[symmetric] by (simp add: sorted_wrt_filter strict_sorted_iff[symmetric] sorted_wrt_iff_nth_less[symmetric])
  have "a \<le> b \<and> (j < i \<longrightarrow> a < b)"
    if "j < length loop" "odd j" "allocation (cell g (loop ! j)) = Some b" for j b
  proof -
    have "j \<in> set (pre @ i # post)" using that(1,2) pp(2)[symmetric] by simp
    then consider "j \<in> set pre" | "j = i" | "j \<in> set post" by auto
    then show ?thesis
    proof cases
      case 1 then show ?thesis using pp(5) that(3) by fastforce
    next
      case 2 then show ?thesis using pp(3,4) that(3) by simp
    next
      case 3
      then have "i < j" using srt by (simp add: sorted_wrt_append)
      then show ?thesis using pp(6) 3 that(3) by fastforce
    qed
  qed
  then show ?thesis using Some pp(1,3,4) i by auto
qed

text \<open>The grid that \<open>applyPivot\<close> returns for a finite \<open>theta\<close>, step by step.\<close>

definition moved :: "Grid \<Rightarrow> LoopNode list \<Rightarrow> int \<Rightarrow> Grid" where
  "moved g loop t = fold (apply_step t loop) [0..<length loop - 1] (map (map copy_cell) g)"

definition leave_cell :: "LoopNode option \<Rightarrow> LoopNode \<Rightarrow> Cell \<Rightarrow> Cell" where
  "leave_cell lv n x = (if lv = Some n then x\<lparr>isBasin := False, allocation := None\<rparr> else x)"

definition enter_cell :: "LoopNode \<Rightarrow> LoopNode \<Rightarrow> Cell \<Rightarrow> Cell" where
  "enter_cell start n x = (if n = start then x\<lparr>isBasin := True\<rparr> else x)"

lemma is_cell_fold_apply [simp]: "is_cell (fold (apply_step t loop) idx g) n = is_cell g n"
  by (induction idx arbitrary: g) (simp_all add: apply_step_def Let_def)

lemma length_fold_apply [simp]:
  "length (fold (apply_step t loop) idx g) = length g"
  "length (fold (apply_step t loop) idx g ! r) = length (g ! r)"
  by (induction idx arbitrary: g) (simp_all add: apply_step_def Let_def)

lemma cell_fold_apply_other:
  "is_cell g n \<Longrightarrow> n \<notin> (\<lambda>i. loop ! i) ` set idx \<Longrightarrow> cell (fold (apply_step t loop) idx g) n = cell g n"
proof (induction idx arbitrary: g)
  case Nil
  then show ?case by simp
next
  case (Cons i idx)
  have "cell (apply_step t loop i g) n = cell g n"
    using Cons.prems by (auto simp: apply_step_def Let_def cell_upd)
  moreover have "is_cell (apply_step t loop i g) n"
    using Cons.prems(1) by (simp add: apply_step_def Let_def)
  ultimately show ?case using Cons.IH[of "apply_step t loop i g"] Cons.prems(2) by simp
qed

lemma cost_fold_apply:
  "is_cell g n \<Longrightarrow> cost (cell (fold (apply_step t loop) idx g) n) = cost (cell g n)"
proof (induction idx arbitrary: g)
  case Nil
  then show ?case by simp
next
  case (Cons i idx)
  have "cost (cell (apply_step t loop i g) n) = cost (cell g n)"
    using Cons.prems by (auto simp: apply_step_def Let_def cell_upd)
  moreover have "is_cell (apply_step t loop i g) n"
    using Cons.prems(1) by (simp add: apply_step_def Let_def)
  ultimately show ?case using Cons.IH[of "apply_step t loop i g"] by simp
qed

lemma is_cell_moved [simp]: "is_cell (moved g loop t) n = is_cell g n"
  by (simp add: moved_def)

lemma applyPivot_finite:
  assumes "loop \<noteq> []" and "\<forall>n\<in>set (touched loop). is_cell g n" and "find_theta g loop = (Fin t, lv)"
  shows "\<exists>g'. applyPivot g loop = Inr (g', Fin t)
           \<and> length g' = length g \<and> (\<forall>r<length g. length (g' ! r) = length (g ! r))
           \<and> (\<forall>n. is_cell g n \<longrightarrow>
                 cell g' n = cleanup_cell (enter_cell (loop ! 0) n (leave_cell lv n (cell (moved g loop t) n))))"
proof -
  define g1 where "g1 = moved g loop t"
  define g2 where "g2 = (case lv of None \<Rightarrow> g1
      | Some node \<Rightarrow> upd g1 (fst node) (snd node) (\<lambda>x. x\<lparr>isBasin := False, allocation := None\<rparr>))"
  define g3 where "g3 = upd g2 (fst (loop ! 0)) (snd (loop ! 0)) (\<lambda>x. x\<lparr>isBasin := True\<rparr>)"
  have nex: "\<not> list_ex (\<lambda>node. \<not> has_cell g (fst node) (snd node)) (touched loop)"
    using assms(2) by (simp add: list_ex_iff is_cell_def)
  have call: "applyPivot g loop = Inr (map (map cleanup_cell) g3, Fin t)"
    unfolding g3_def g2_def g1_def moved_def applyPivot_def
    using assms(1,3) nex by (simp add: Let_def cong: option.case_cong)
  have len: "length g2 = length g" "r < length g \<Longrightarrow> length (g2 ! r) = length (g ! r)" for r
    by (simp_all add: g2_def g1_def moved_def split: option.splits)
  have len3: "length g3 = length g" "r < length g \<Longrightarrow> length (g3 ! r) = length (g ! r)" for r
    by (simp_all add: g3_def len)
  have ic2: "is_cell g2 n = is_cell g n" for n
    by (simp add: g2_def g1_def split: option.splits)
  have c2: "cell g2 n = leave_cell lv n (cell g1 n)" if "is_cell g n" for n
    using that by (cases lv) (auto simp: g2_def leave_cell_def cell_upd g1_def)
  have c3: "cell g3 n = enter_cell (loop ! 0) n (cell g2 n)" if "is_cell g n" for n
    using that by (auto simp: g3_def enter_cell_def cell_upd ic2)
  have "cell (map (map cleanup_cell) g3) n
      = cleanup_cell (enter_cell (loop ! 0) n (leave_cell lv n (cell g1 n)))" if "is_cell g n" for n
    using that c2 c3 by (simp add: cell_map g3_def ic2)
  moreover have "length (map (map cleanup_cell) g3 ! r) = length (g ! r)" if "r < length g" for r
    using that by (simp add: len3)
  ultimately show ?thesis using call len3(1) by (auto simp: g1_def)
qed

lemma cost_cleanup_cell [simp]: "cost (cleanup_cell x) = cost x"
  by (simp add: cleanup_cell_def)

lemma cost_enter_cell [simp]: "cost (enter_cell s n x) = cost x"
  by (simp add: enter_cell_def)

lemma cost_leave_cell [simp]: "cost (leave_cell lv n x) = cost x"
  by (simp add: leave_cell_def)

lemma cost_copy_cell [simp]: "cost (copy_cell x) = cost x"
  by (simp add: copy_cell_def)

lemma touched_subset: "set (touched loop) \<subseteq> set loop"
  by (auto simp: touched_def)

text \<open>The closed loop of the example for the entering cell \<open>(1,0)\<close>.\<close>

definition ex_loop :: "LoopNode list" where
  "ex_loop = [(1, 0), (1, 1), (0, 1), (0, 0), (1, 0)]"

text \<open>
  The example with a third column: the cells \<open>(0,2)\<close> (non-basic) and \<open>(1,2)\<close> (basic)
  are not on the loop.
\<close>

definition wide_grid :: Grid where
  "wide_grid = [[mk_cell 0 0 1 (Some 10) True, mk_cell 0 1 2 (Some 0) True, mk_cell 0 2 5 None False],
                [mk_cell 1 0 2 None False, mk_cell 1 1 10 (Some 10) True, mk_cell 1 2 3 (Some 0) True]]"

lemma findLoop_ex: "findLoop (1, 0) ex_grid = Inr (Some ex_loop)"
  by code_simp

lemma applyPivot_ex:
  "applyPivot ex_grid ex_loop =
     Inr ([[mk_cell 0 0 1 (Some 0) True, mk_cell 0 1 2 (Some 10) True],
           [mk_cell 1 0 2 (Some 10) True, mk_cell 1 1 10 None False]], Fin 10)"
  by code_simp

lemma applyPivot_wide:
  "applyPivot wide_grid ex_loop =
     Inr ([[mk_cell 0 0 1 (Some 0) True, mk_cell 0 1 2 (Some 10) True, mk_cell 0 2 5 None False],
           [mk_cell 1 0 2 (Some 10) True, mk_cell 1 1 10 None False, mk_cell 1 2 3 (Some 0) True]], Fin 10)"
  by code_simp

lemma ex_loop_cells: "\<forall>n\<in>set ex_loop. is_cell ex_grid n"
  by (simp add: ex_loop_def ex_grid_def is_cell_def has_cell_def)

lemma length_ex_loop: "length ex_loop = Suc (Suc (Suc (Suc (Suc 0))))"
  by (simp add: ex_loop_def)

lemma ex_loop_minus_allocated:
  "\<forall>i<length ex_loop. odd i \<longrightarrow> allocation (cell ex_grid (ex_loop ! i)) \<noteq> None"
  unfolding length_ex_loop All_less_Suc
  by (simp add: ex_loop_def ex_grid_def cell_def mk_cell_def)

lemma ex_loop_minus_not_entering:
  "\<forall>i<length ex_loop. odd i \<longrightarrow> ex_loop ! i \<noteq> ex_loop ! 0"
  unfolding length_ex_loop All_less_Suc
  by (simp add: ex_loop_def)

section \<open>Claim C5: the pivot quantity and the leaving cell\<close>

text \<open>
  Claim C5. Let the loop have at least two nodes, all of them cells of the grid, let every
  odd position ("minus" cell) hold a non-empty allocation, and let the cell at position 0
  (the entering cell) not occur at an odd position (as when the minus cells are basic and
  the entering cell is not). Then \<open>applyPivot\<close> returns a finite \<open>\<theta>\<close> that is the
  allocation of the minus cell at some position \<open>i\<close>, no minus cell has a smaller
  allocation, and every minus cell before position \<open>i\<close> has a strictly greater one:
  \<open>\<theta>\<close> is the minimum, and \<open>i\<close> the first position that attains it. In the grid
  returned, the cell at position \<open>i\<close> is non-basic with an empty allocation, the entering
  cell is basic (whatever \<open>\<theta>\<close> is, so also for \<open>\<theta> = 0\<close>), and every cell that is
  not basic has an empty allocation.
\<close>

theorem applyPivot_theta_and_leaving:
  assumes "2 \<le> length loop"
    and "\<forall>n\<in>set loop. is_cell g n"
    and "\<forall>i<length loop. odd i \<longrightarrow> allocation (cell g (loop ! i)) \<noteq> None"
    and "\<forall>i<length loop. odd i \<longrightarrow> loop ! i \<noteq> loop ! 0"
  shows "\<exists>g' \<theta> i. applyPivot g loop = Inr (g', Fin \<theta>)
           \<and> odd i \<and> i < length loop \<and> allocation (cell g (loop ! i)) = Some \<theta>
           \<and> (\<forall>j<length loop. odd j \<longrightarrow>
                 (\<exists>b. allocation (cell g (loop ! j)) = Some b \<and> \<theta> \<le> b \<and> (j < i \<longrightarrow> \<theta> < b)))
           \<and> \<not> isBasin (cell g' (loop ! i)) \<and> allocation (cell g' (loop ! i)) = None
           \<and> isBasin (cell g' (loop ! 0))
           \<and> (\<forall>n. is_cell g' n \<longrightarrow> \<not> isBasin (cell g' n) \<longrightarrow> allocation (cell g' n) = None)"
proof -
  obtain th lv where ft: "find_theta g loop = (th, lv)" by (cases "find_theta g loop")
  have one: "1 < length loop" "odd (1::nat)" using assms(1) by simp_all
  have "lv \<noteq> None"
  proof
    assume "lv = None"
    then have "allocation (cell g (loop ! 1)) = None"
      using find_theta_char[OF ft] one by auto
    then show False using assms(3) one by blast
  qed
  then obtain n where lv: "lv = Some n" by blast
  then obtain a i where ai: "th = Fin a" "odd i" "i < length loop" "n = loop ! i"
    "allocation (cell g n) = Some a"
    "\<forall>j<length loop. odd j \<longrightarrow> (\<forall>b. allocation (cell g (loop ! j)) = Some b \<longrightarrow>
        a \<le> b \<and> (j < i \<longrightarrow> a < b))"
    using find_theta_char[OF ft] by auto
  have ne: "loop \<noteq> []" using assms(1) by auto
  have tc: "\<forall>n\<in>set (touched loop). is_cell g n" using assms(2) touched_subset by blast
  from applyPivot_finite[OF ne tc ft[unfolded ai(1)]]
  obtain g' where g': "applyPivot g loop = Inr (g', Fin a)" "length g' = length g"
    "\<forall>r<length g. length (g' ! r) = length (g ! r)"
    "\<forall>m. is_cell g m \<longrightarrow>
        cell g' m = cleanup_cell (enter_cell (loop ! 0) m (leave_cell lv m (cell (moved g loop a) m)))"
    by (elim exE conjE)
  have icn: "is_cell g n" "is_cell g (loop ! 0)" using assms(2) ai(3,4) ne by auto
  have nn0: "n \<noteq> loop ! 0" using assms(4)[rule_format, OF ai(3,2)] ai(4) by simp
  have leave: "\<not> isBasin (cell g' n)" "allocation (cell g' n) = None"
    using g'(4)[rule_format, OF icn(1)] nn0 lv
    by (simp_all add: cleanup_cell_def enter_cell_def leave_cell_def)
  have enter: "isBasin (cell g' (loop ! 0))"
    using g'(4)[rule_format, OF icn(2)] by (simp add: cleanup_cell_def enter_cell_def)
  have same: "is_cell g' m = is_cell g m" for m
    unfolding is_cell_def has_cell_def using g'(2) g'(3)[rule_format, of "fst m"] by auto
  have clean: "allocation (cell g' m) = None" if "is_cell g' m" "\<not> isBasin (cell g' m)" for m
  proof -
    have "is_cell g m" using that(1) same by simp
    note x = g'(4)[rule_format, OF this]
    show ?thesis using that(2) unfolding x by (simp add: cleanup_cell_def split: if_splits)
  qed
  have mins: "\<exists>b. allocation (cell g (loop ! j)) = Some b \<and> a \<le> b \<and> (j < i \<longrightarrow> a < b)"
    if j: "j < length loop" "odd j" for j
  proof -
    obtain b where b: "allocation (cell g (loop ! j)) = Some b"
      using assms(3)[rule_format, OF j] by auto
    then show ?thesis using ai(6)[rule_format, OF j b] by simp
  qed
  show ?thesis
  proof (intro exI conjI)
    show "applyPivot g loop = Inr (g', Fin a)" by fact
    show "odd i" "i < length loop" by fact+
    show "allocation (cell g (loop ! i)) = Some a" using ai(4,5) by simp
    show "\<forall>j<length loop. odd j \<longrightarrow>
            (\<exists>b. allocation (cell g (loop ! j)) = Some b \<and> a \<le> b \<and> (j < i \<longrightarrow> a < b))"
      using mins by blast
    show "\<not> isBasin (cell g' (loop ! i))" "allocation (cell g' (loop ! i)) = None"
      using leave ai(4) by simp_all
    show "isBasin (cell g' (loop ! 0))" by fact
    show "\<forall>n. is_cell g' n \<longrightarrow> \<not> isBasin (cell g' n) \<longrightarrow> allocation (cell g' n) = None"
      using clean by blast
  qed
qed

theorem applyPivot_theta_and_leaving_witness:
  "\<exists>g' \<theta> i. applyPivot ex_grid ex_loop = Inr (g', Fin \<theta>)
     \<and> odd i \<and> i < length ex_loop \<and> allocation (cell ex_grid (ex_loop ! i)) = Some \<theta>
     \<and> \<not> isBasin (cell g' (ex_loop ! i)) \<and> allocation (cell g' (ex_loop ! i)) = None
     \<and> isBasin (cell g' (ex_loop ! 0))"
proof -
  have len: "2 \<le> length ex_loop" by (simp add: ex_loop_def)
  from applyPivot_theta_and_leaving[OF len ex_loop_cells ex_loop_minus_allocated ex_loop_minus_not_entering]
  obtain g' \<theta> i where "applyPivot ex_grid ex_loop = Inr (g', Fin \<theta>)"
    "odd i" "i < length ex_loop" "allocation (cell ex_grid (ex_loop ! i)) = Some \<theta>"
    "\<not> isBasin (cell g' (ex_loop ! i))" "allocation (cell g' (ex_loop ! i)) = None"
    "isBasin (cell g' (ex_loop ! 0))"
    by (elim exE conjE)
  then show ?thesis by (intro exI conjI)
qed

section \<open>Claim C10: what the pivot leaves unchanged\<close>

definition basics_allocated :: "Grid \<Rightarrow> bool" where
  "basics_allocated g = list_all (list_all (\<lambda>x. isBasin x \<longrightarrow> allocation x \<noteq> None)) g"

lemma basics_allocated_cell:
  "basics_allocated g \<Longrightarrow> is_cell g n \<Longrightarrow> isBasin (cell g n) \<Longrightarrow> allocation (cell g n) \<noteq> None"
  by (auto simp: basics_allocated_def list_all_length is_cell_def has_cell_def cell_def)

text \<open>
  Outside the loop, the pivot only copies a cell (an empty allocation becoming 0) and then
  empties the allocation of the cells that are not basic.
\<close>

lemma pivot_outside_loop:
  assumes "loop \<noteq> []"
    and "\<forall>n\<in>set loop. is_cell g n"
    and "\<exists>i<length loop. odd i \<and> allocation (cell g (loop ! i)) \<noteq> None"
    and "\<forall>n. is_cell g n \<longrightarrow> isBasin (cell g n) \<longrightarrow> allocation (cell g n) \<noteq> None"
  shows "\<exists>g' \<theta>. applyPivot g loop = Inr (g', Fin \<theta>)
           \<and> length g' = length g \<and> (\<forall>r<length g. length (g' ! r) = length (g ! r))
           \<and> (\<forall>n. is_cell g n \<longrightarrow> cost (cell g' n) = cost (cell g n))
           \<and> (\<forall>n. is_cell g n \<longrightarrow> n \<notin> set loop \<longrightarrow>
                 cell g' n = (if isBasin (cell g n) then cell g n else (cell g n)\<lparr>allocation := None\<rparr>))"
proof -
  obtain th lv where ft: "find_theta g loop = (th, lv)" by (cases "find_theta g loop")
  have "lv \<noteq> None"
    using find_theta_char[OF ft] assms(3) by (cases lv) auto
  then obtain l where lv: "lv = Some l" by blast
  then obtain a i where ai: "th = Fin a" "i < length loop" "l = loop ! i"
    using find_theta_char[OF ft] by auto
  have lin: "l \<in> set loop" using ai(2,3) by simp
  have tc: "\<forall>n\<in>set (touched loop). is_cell g n" using assms(2) touched_subset by blast
  from applyPivot_finite[OF assms(1) tc ft[unfolded ai(1)]]
  obtain g' where g': "applyPivot g loop = Inr (g', Fin a)" "length g' = length g"
    "\<forall>r<length g. length (g' ! r) = length (g ! r)"
    "\<forall>m. is_cell g m \<longrightarrow>
        cell g' m = cleanup_cell (enter_cell (loop ! 0) m (leave_cell lv m (cell (moved g loop a) m)))"
    by (elim exE conjE)
  have cst: "cost (cell g' n) = cost (cell g n)" if "is_cell g n" for n
  proof -
    have "cost (cell (moved g loop a) n) = cost (cell g n)"
      using that by (simp add: moved_def cost_fold_apply cell_map)
    then show ?thesis
      by (simp add: g'(4)[rule_format, OF that])
  qed
  have frame: "cell g' n = (if isBasin (cell g n) then cell g n else (cell g n)\<lparr>allocation := None\<rparr>)"
    if "is_cell g n" "n \<notin> set loop" for n
  proof -
    have "n \<notin> (\<lambda>i. loop ! i) ` set [0..<length loop - 1]" using that(2) by auto
    then have "cell (moved g loop a) n = copy_cell (cell g n)"
      using that(1) by (simp add: moved_def cell_fold_apply_other cell_map)
    moreover have "n \<noteq> loop ! 0" "lv \<noteq> Some n" using that(2) assms(1) lin lv by auto
    ultimately have "cell g' n = cleanup_cell (copy_cell (cell g n))"
      using g'(4)[rule_format, OF that(1)] by (simp add: enter_cell_def leave_cell_def)
    then show ?thesis
      using assms(4)[rule_format, OF that(1)] by (cases "allocation (cell g n)") (auto simp: cleanup_cell_def copy_cell_def)
  qed
  show ?thesis
  proof (intro exI conjI)
    show "applyPivot g loop = Inr (g', Fin a)" by fact
    show "length g' = length g" by fact
    show "\<forall>r<length g. length (g' ! r) = length (g ! r)" by fact
    show "\<forall>n. is_cell g n \<longrightarrow> cost (cell g' n) = cost (cell g n)" using cst by simp
    show "\<forall>n. is_cell g n \<longrightarrow> n \<notin> set loop \<longrightarrow>
            cell g' n = (if isBasin (cell g n) then cell g n else (cell g n)\<lparr>allocation := None\<rparr>)"
      using frame by simp
  qed
qed

text \<open>
  In the grids of this program a cell that is not basic has an empty allocation:
  \<open>createEmptyGrid\<close> makes every cell so, \<open>solveLeastCost\<close> writes an allocation only
  when it makes the cell basic, and \<open>applyPivot\<close> ends with emptying the cells that are
  not basic.
\<close>

definition nonbasics_empty :: "Grid \<Rightarrow> bool" where
  "nonbasics_empty g = list_all (list_all (\<lambda>x. \<not> isBasin x \<longrightarrow> allocation x = None)) g"

lemma nonbasics_empty_cell:
  "nonbasics_empty g \<Longrightarrow> is_cell g n \<Longrightarrow> \<not> isBasin (cell g n) \<Longrightarrow> allocation (cell g n) = None"
  by (auto simp: nonbasics_empty_def list_all_length is_cell_def has_cell_def cell_def)

lemma wide_grid_wellformed: "basics_allocated wide_grid" "nonbasics_empty wide_grid"
  by (simp_all add: basics_allocated_def nonbasics_empty_def wide_grid_def mk_cell_def)

lemma ex_grid_wellformed:
  "basics_allocated ex_grid" "nonbasics_empty ex_grid"
  by (simp_all add: basics_allocated_def nonbasics_empty_def ex_grid_def mk_cell_def)

text \<open>
  Claim C10. Let every basic cell of the grid carry a non-empty allocation and every other
  cell an empty one, and let the loop be non-empty, all its nodes cells of the grid, with
  an allocation at some odd position (so that \<open>\<theta>\<close> is finite). Then \<open>applyPivot\<close>
  returns a grid of the same shape in which every cell has the cost it had, loop cells
  included, and every cell that does not occur in the loop is the cell it was: same
  allocation, same basis membership, and the same in every other field.
\<close>

theorem applyPivot_frame:
  assumes "loop \<noteq> []"
    and "\<forall>n\<in>set loop. is_cell g n"
    and "\<exists>i<length loop. odd i \<and> allocation (cell g (loop ! i)) \<noteq> None"
    and "basics_allocated g"
    and "nonbasics_empty g"
  shows "\<exists>g' \<theta>. applyPivot g loop = Inr (g', Fin \<theta>)
           \<and> length g' = length g \<and> (\<forall>r<length g. length (g' ! r) = length (g ! r))
           \<and> (\<forall>n. is_cell g n \<longrightarrow> cost (cell g' n) = cost (cell g n))
           \<and> (\<forall>n. is_cell g n \<longrightarrow> n \<notin> set loop \<longrightarrow>
                 cell g' n = cell g n
                 \<and> allocation (cell g' n) = allocation (cell g n)
                 \<and> isBasin (cell g' n) = isBasin (cell g n))"
proof -
  have ba: "\<forall>n. is_cell g n \<longrightarrow> isBasin (cell g n) \<longrightarrow> allocation (cell g n) \<noteq> None"
    using basics_allocated_cell[OF assms(4)] by blast
  from pivot_outside_loop[OF assms(1,2,3) ba]
  obtain g' \<theta> where g': "applyPivot g loop = Inr (g', Fin \<theta>)" "length g' = length g"
    "\<forall>r<length g. length (g' ! r) = length (g ! r)"
    "\<forall>n. is_cell g n \<longrightarrow> cost (cell g' n) = cost (cell g n)"
    "\<forall>n. is_cell g n \<longrightarrow> n \<notin> set loop \<longrightarrow>
        cell g' n = (if isBasin (cell g n) then cell g n else (cell g n)\<lparr>allocation := None\<rparr>)"
    by (elim exE conjE)
  have same: "cell g' n = cell g n" if "is_cell g n" "n \<notin> set loop" for n
  proof (cases "isBasin (cell g n)")
    case True
    then show ?thesis using g'(5)[rule_format, OF that] by simp
  next
    case False
    then have "allocation (cell g n) = None"
      using nonbasics_empty_cell[OF assms(5) that(1)] by simp
    then have "(cell g n)\<lparr>allocation := None\<rparr> = cell g n" by simp
    then show ?thesis using g'(5)[rule_format, OF that] False by simp
  qed
  show ?thesis
  proof (intro exI conjI)
    show "applyPivot g loop = Inr (g', Fin \<theta>)" by fact
    show "length g' = length g" by fact
    show "\<forall>r<length g. length (g' ! r) = length (g ! r)" by fact
    show "\<forall>n. is_cell g n \<longrightarrow> cost (cell g' n) = cost (cell g n)" by fact
    show "\<forall>n. is_cell g n \<longrightarrow> n \<notin> set loop \<longrightarrow>
            cell g' n = cell g n
            \<and> allocation (cell g' n) = allocation (cell g n)
            \<and> isBasin (cell g' n) = isBasin (cell g n)"
      using same by simp
  qed
qed

theorem applyPivot_frame_witness:
  "\<exists>g' \<theta>. applyPivot wide_grid ex_loop = Inr (g', Fin \<theta>) \<and> length g' = length wide_grid
     \<and> cell g' (0, 2) = cell wide_grid (0, 2) \<and> cell g' (1, 2) = cell wide_grid (1, 2)"
proof -
  have ne: "ex_loop \<noteq> []" by (simp add: ex_loop_def)
  have cells: "\<forall>n\<in>set ex_loop. is_cell wide_grid n"
    by (simp add: ex_loop_def wide_grid_def is_cell_def has_cell_def)
  have fin: "\<exists>i<length ex_loop. odd i \<and> allocation (cell wide_grid (ex_loop ! i)) \<noteq> None"
    by (rule exI[of _ 1]) (simp add: ex_loop_def wide_grid_def cell_def mk_cell_def)
  have c: "is_cell wide_grid (0, 2)" "is_cell wide_grid (1, 2)"
    by (simp_all add: is_cell_def has_cell_def wide_grid_def)
  have out: "(0, 2) \<notin> set ex_loop" "(1, 2) \<notin> set ex_loop"
    by (simp_all add: ex_loop_def)
  from applyPivot_frame[OF ne cells fin wide_grid_wellformed]
  obtain g' \<theta> where g': "applyPivot wide_grid ex_loop = Inr (g', Fin \<theta>)"
    "length g' = length wide_grid"
    "\<forall>n. is_cell wide_grid n \<longrightarrow> n \<notin> set ex_loop \<longrightarrow>
        cell g' n = cell wide_grid n
        \<and> allocation (cell g' n) = allocation (cell wide_grid n)
        \<and> isBasin (cell g' n) = isBasin (cell wide_grid n)"
    by (elim exE conjE)
  have "cell g' (0, 2) = cell wide_grid (0, 2)" "cell g' (1, 2) = cell wide_grid (1, 2)"
    using g'(3)[rule_format, OF c(1) out(1)] g'(3)[rule_format, OF c(2) out(2)] by simp_all
  with g'(1,2) show ?thesis by (intro exI conjI)
qed

section \<open>Potentials: the shape of the result\<close>

lemma pot_step_length:
  "pot_step g rc (u, v, ch) = (u', v', ch') \<Longrightarrow> length u' = length u \<and> length v' = length v"
  by (cases rc) (auto simp: pot_step_def split: if_splits)

lemma pot_fold_length:
  "fold (pot_step g) cells (u, v, ch) = (u', v', ch') \<Longrightarrow> length u' = length u \<and> length v' = length v"
proof (induction cells arbitrary: u v ch)
  case Nil
  then show ?case by simp
next
  case (Cons rc cells)
  obtain u1 v1 ch1 where s1: "pot_step g rc (u, v, ch) = (u1, v1, ch1)"
    by (cases "pot_step g rc (u, v, ch)")
  from Cons.prems s1 have "fold (pot_step g) cells (u1, v1, ch1) = (u', v', ch')" by simp
  from Cons.IH[OF this] pot_step_length[OF s1] show ?case by simp
qed

lemma pot_loop_length:
  "pot_loop g rows cols uv = (u', v') \<Longrightarrow> length u' = length (fst uv) \<and> length v' = length (snd uv)"
proof (induction g rows cols uv rule: pot_loop.induct)
  case (1 g rows cols uv)
  obtain u1 v1 ch where pp: "pot_pass g rows cols uv = (u1, v1, ch)"
    by (cases "pot_pass g rows cols uv")
  then have len: "length u1 = length (fst uv)" "length v1 = length (snd uv)"
    using pot_fold_length[of g "scan rows cols" "fst uv" "snd uv" False u1 v1 ch]
    by (simp_all add: pot_pass_def)
  show ?case
  proof (cases ch)
    case True
    then have "pot_loop g rows cols (u1, v1) = (u', v')"
      using "1.prems" pp by (subst (asm) pot_loop.simps) simp
    from "1.IH"[OF pp[symmetric] refl True this] len show ?thesis by simp
  next
    case False
    then have "(u1, v1) = (u', v')"
      using "1.prems" pp by (subst (asm) pot_loop.simps) simp
    then show ?thesis using len by simp
  qed
qed

lemma calculatePotentials_rect:
  assumes "rect g rows cols" "0 < rows"
  shows "\<exists>u v. calculatePotentials g rows cols = Inr (u, v) \<and> length u = rows \<and> length v = cols"
proof -
  obtain u v where uv: "pot_loop g rows cols (initial_u rows, replicate cols None) = (u, v)"
    by (cases "pot_loop g rows cols (initial_u rows, replicate cols None)")
  have "length u = rows" "length v = cols"
    using pot_loop_length[OF uv] assms(2) by (simp_all add: initial_u_def)
  moreover have "calculatePotentials g rows cols = Inr (u, v)"
    using rect_covers[OF assms(1)] uv by (simp add: calculatePotentials_def)
  ultimately show ?thesis by blast
qed

section \<open>Claim C7: what the full iteration reports\<close>

text \<open>
  A balanced problem in the range of \<open>generateRandomProblem\<close> (costs from 2 to 15,
  supplies and demands from 20): costs \<open>[[2,3,9],[3,15,9],[9,9,2]]\<close>, every supply and
  every demand 20. The first loop of \<open>solveLeastCost\<close> allocates 20 on \<open>(0,0)\<close>,
  \<open>(2,2)\<close> and \<open>(1,1)\<close>, each allocation exhausting a row and a column at once; the
  second loop makes \<open>(0,1)\<close> and \<open>(1,0)\<close> basic with allocation 0. The five basic
  cells hold the cycle \<open>(0,0), (0,1), (1,1), (1,0)\<close> and reach neither row 2 nor column 2
  from row 0.
\<close>

definition deg_problem :: ProblemState where
  "deg_problem =
     \<lparr> costs = [[2, 3, 9], [3, 15, 9], [9, 9, 2]],
       supplyVec = [20, 20, 20], demandVec = [20, 20, 20],
       initialSupply = [20, 20, 20], initialDemand = [20, 20, 20], rowCount = 3, colCount = 3 \<rparr>"

definition deg_grid :: Grid where
  "deg_grid =
     [[mk_cell 0 0 2 (Some 20) True, mk_cell 0 1 3 (Some 0) True, mk_cell 0 2 9 None False],
      [mk_cell 1 0 3 (Some 0) True, mk_cell 1 1 15 (Some 20) True, mk_cell 1 2 9 None False],
      [mk_cell 2 0 9 None False, mk_cell 2 1 9 None False, mk_cell 2 2 2 (Some 20) True]]"

text \<open>The plan that ships 20 on \<open>(0,1)\<close>, \<open>(1,0)\<close> and \<open>(2,2)\<close> for the same problem.\<close>

definition cheaper_grid :: Grid where
  "cheaper_grid =
     [[mk_cell 0 0 2 (Some 0) True, mk_cell 0 1 3 (Some 20) True, mk_cell 0 2 9 None False],
      [mk_cell 1 0 3 (Some 20) True, mk_cell 1 1 15 None False, mk_cell 1 2 9 (Some 0) True],
      [mk_cell 2 0 9 None False, mk_cell 2 1 9 None False, mk_cell 2 2 2 (Some 20) True]]"

lemma solveLeastCost_deg: "solveLeastCost deg_problem = Inr deg_grid"
  by code_simp

lemma calculatePotentials_deg:
  "calculatePotentials deg_grid 3 3 = Inr ([Some 0, Some 1, None], [Some 2, Some 3, None])"
  by code_simp

lemma calculateOpportunityCosts_deg:
  "calculateOpportunityCosts deg_grid [Some 0, Some 1, None] [Some 2, Some 3, None]
     = Inr (deg_grid, Infinity, None)"
  by code_simp

lemma performFullIteration_deg:
  "performFullIteration deg_grid 3 3 = Inr (IsOptimal deg_grid 380)"
  by code_simp

lemma calculateTotalCost_cheaper: "calculateTotalCost cheaper_grid = 160"
  by code_simp

text \<open>
  Claim C7 requires an explicit error result when the basis is not a spanning tree or a
  potential is still unknown after propagation, and in particular no declaration of
  optimality while a potential is unknown. On the grid that \<open>solveLeastCost\<close> returns for
  the problem above, \<open>performFullIteration\<close> does otherwise. \<open>calculatePotentials\<close> leaves
  \<open>u[2]\<close> and \<open>v[2]\<close> unknown; every non-basic cell lies in row 2 or in column 2, so
  \<open>calculateOpportunityCosts\<close> skips them all and returns \<open>minDelta = Infinity\<close> with no
  entering cell; the test \<open>minDelta >= 0\<close> holds for \<open>Infinity\<close> and comes before the test
  for a missing entering cell, whose error result is therefore not reached. The result is
  \<open>isOptimal\<close> with the grid unchanged and cost 380, although the plan \<open>cheaper_grid\<close>
  meets the same supplies and demands at cost 160.
\<close>

theorem performFullIteration_optimal_with_unknown_potentials:
  "solveLeastCost deg_problem = Inr deg_grid
   \<and> calculatePotentials deg_grid 3 3 = Inr ([Some 0, Some 1, None], [Some 2, Some 3, None])
   \<and> calculateOpportunityCosts deg_grid [Some 0, Some 1, None] [Some 2, Some 3, None]
         = Inr (deg_grid, Infinity, None)
   \<and> performFullIteration deg_grid 3 3 = Inr (IsOptimal deg_grid 380)
   \<and> calculateTotalCost cheaper_grid = 160"
  using solveLeastCost_deg calculatePotentials_deg calculateOpportunityCosts_deg
    performFullIteration_deg calculateTotalCost_cheaper
  by simp

section \<open>The basis as a graph\<close>

text \<open>
  The basis invariant of the specification: the basic cells, as edges between the
  \<open>rows\<close> source nodes and the \<open>cols\<close> destination nodes, form a spanning tree, and
  there are \<open>rows + cols - 1\<close> of them. A basic cell \<open>(r,c)\<close> links source \<open>r\<close> and
  destination \<open>c\<close>. The graph is connected when any two nodes are joined by a chain of
  links, and acyclic when no basic cell lies on a cycle, that is, when the two nodes of a
  basic cell are not joined by the other basic cells.
\<close>

datatype node = Src nat | Dst nat

definition basics :: "Grid \<Rightarrow> nat \<Rightarrow> nat \<Rightarrow> LoopNode set" where
  "basics g rows cols = {(r, c). r < rows \<and> c < cols \<and> isBasin (g ! r ! c)}"

definition links :: "LoopNode set \<Rightarrow> (node \<times> node) set" where
  "links B = {(Src r, Dst c) |r c. (r, c) \<in> B} \<union> {(Dst c, Src r) |r c. (r, c) \<in> B}"

definition nodes :: "nat \<Rightarrow> nat \<Rightarrow> node set" where
  "nodes rows cols = Src ` {..<rows} \<union> Dst ` {..<cols}"

definition connected_basis :: "LoopNode set \<Rightarrow> nat \<Rightarrow> nat \<Rightarrow> bool" where
  "connected_basis B rows cols =
     (\<forall>x\<in>nodes rows cols. \<forall>y\<in>nodes rows cols. (x, y) \<in> (links B)\<^sup>*)"

definition acyclic_basis :: "LoopNode set \<Rightarrow> bool" where
  "acyclic_basis B = (\<forall>e\<in>B. (Src (fst e), Dst (snd e)) \<notin> (links (B - {e}))\<^sup>*)"

definition basis_invariant :: "Grid \<Rightarrow> nat \<Rightarrow> nat \<Rightarrow> bool" where
  "basis_invariant g rows cols =
     (card (basics g rows cols) + 1 = rows + cols
      \<and> connected_basis (basics g rows cols) rows cols
      \<and> acyclic_basis (basics g rows cols))"

lemma finite_basics [simp]: "finite (basics g rows cols)"
proof -
  have "basics g rows cols \<subseteq> {..<rows} \<times> {..<cols}" by (auto simp: basics_def)
  then show ?thesis by (rule finite_subset) simp
qed

lemma links_sym: "(x, y) \<in> links B \<Longrightarrow> (y, x) \<in> links B"
  by (auto simp: links_def)

lemma links_mono: "A \<subseteq> B \<Longrightarrow> links A \<subseteq> links B"
  by (auto simp: links_def)

lemma links_rtrancl_sym: "(x, y) \<in> (links B)\<^sup>* \<Longrightarrow> (y, x) \<in> (links B)\<^sup>*"
proof (induction rule: rtrancl_induct)
  case base
  then show ?case by simp
next
  case (step y z)
  have "(z, y) \<in> (links B)\<^sup>*" using links_sym[OF step.hyps(2)] by blast
  then show ?case using step.IH by (rule rtrancl_trans)
qed

lemma links_cell: "(r, c) \<in> B \<Longrightarrow> (Src r, Dst c) \<in> links B"
  by (auto simp: links_def)

lemma links_cases:
  assumes "(x, y) \<in> links B"
  obtains r c where "(r, c) \<in> B" "x = Src r" "y = Dst c"
    | r c where "(r, c) \<in> B" "x = Dst c" "y = Src r"
  using assms by (auto simp: links_def)

section \<open>Counting the cells of a connected basis\<close>

lemma finite_nodes [simp]: "finite (nodes rows cols)"
  by (simp add: nodes_def)

lemma card_nodes: "card (nodes rows cols) = rows + cols"
proof -
  have "Src ` {..<rows} \<inter> Dst ` {..<cols} = {}" by auto
  moreover have "card (Src ` {..<rows}) = rows" "card (Dst ` {..<cols}) = cols"
    by (simp_all add: card_image inj_on_def)
  ultimately show ?thesis
    unfolding nodes_def by (subst card_Un_disjoint) simp_all
qed

lemma links_nodes:
  assumes "B \<subseteq> {..<rows} \<times> {..<cols}" "(x, y) \<in> links B"
  shows "x \<in> nodes rows cols \<and> y \<in> nodes rows cols"
  using assms(2)
proof (cases rule: links_cases)
  case (1 r c)
  then show ?thesis using assms(1) by (auto simp: nodes_def)
next
  case (2 r c)
  then show ?thesis using assms(1) by (auto simp: nodes_def)
qed

text \<open>A chain that leaves a set of nodes has a link that leaves it.\<close>

lemma boundary_link:
  assumes "(x, y) \<in> E\<^sup>*" "x \<in> R" "y \<notin> R"
  shows "\<exists>a b. (a, b) \<in> E \<and> a \<in> R \<and> b \<notin> R"
  using assms
proof (induction rule: rtrancl_induct)
  case base
  then show ?case by simp
next
  case (step y z)
  show ?case
  proof (cases "y \<in> R")
    case True
    then show ?thesis using step.hyps(2) step.prems(2) by blast
  next
    case False
    then show ?thesis using step.IH step.prems(1) by blast
  qed
qed

text \<open>
  Growing a tree from source 0: as long as a node is missing, a link leaves the set of
  nodes reached, and its cell is a new cell of the tree.
\<close>

lemma grow_tree:
  assumes "finite B" "B \<subseteq> {..<rows} \<times> {..<cols}"
    and "\<forall>y\<in>nodes rows cols. (Src 0, y) \<in> (links B)\<^sup>*"
    and "Src 0 \<in> R" "R \<subseteq> nodes rows cols" "T \<subseteq> B" "card T + 1 = card R"
    and "\<forall>e\<in>T. Src (fst e) \<in> R \<and> Dst (snd e) \<in> R"
  shows "card (nodes rows cols) \<le> card B + 1"
  using assms(4-8)
proof (induction "card (nodes rows cols - R)" arbitrary: R T rule: less_induct)
  case less
  have finR: "finite R" using less.prems(2) finite_nodes by (rule finite_subset)
  have finT: "finite T" using less.prems(3) assms(1) by (rule finite_subset)
  show ?case
  proof (cases "R = nodes rows cols")
    case True
    have "card T \<le> card B" using less.prems(3) assms(1) by (simp add: card_mono)
    then show ?thesis using less.prems(4) True by simp
  next
    case False
    then obtain y where y: "y \<in> nodes rows cols" "y \<notin> R" using less.prems(2) by blast
    then have "(Src 0, y) \<in> (links B)\<^sup>*" using assms(3) by simp
    from boundary_link[OF this less.prems(1) y(2)]
    obtain a b where ab: "(a, b) \<in> links B" "a \<in> R" "b \<notin> R" by blast
    have bn: "b \<in> nodes rows cols" using links_nodes[OF assms(2) ab(1)] by simp
    obtain e where e: "e \<in> B" "Src (fst e) \<in> insert b R" "Dst (snd e) \<in> insert b R"
      "\<not> (Src (fst e) \<in> R \<and> Dst (snd e) \<in> R)"
      using ab by (cases rule: links_cases) auto
    have eT: "e \<notin> T" using e(4) less.prems(5) by blast
    let ?R = "insert b R" and ?T = "insert e T"
    have 1: "Src 0 \<in> ?R" using less.prems(1) by simp
    have 2: "?R \<subseteq> nodes rows cols" using less.prems(2) bn by simp
    have 3: "?T \<subseteq> B" using less.prems(3) e(1) by simp
    have 4: "card ?T + 1 = card ?R" using less.prems(4) eT ab(3) finR finT by simp
    have 5: "\<forall>e\<in>?T. Src (fst e) \<in> ?R \<and> Dst (snd e) \<in> ?R"
      using less.prems(5) e(2,3) by auto
    have "nodes rows cols - ?R \<subset> nodes rows cols - R" using bn ab(3) by blast
    then have "card (nodes rows cols - ?R) < card (nodes rows cols - R)"
      by (intro psubset_card_mono) simp_all
    from less.hyps[OF this 1 2 3 4 5] show ?thesis .
  qed
qed

lemma connected_count:
  assumes "B \<subseteq> {..<rows} \<times> {..<cols}" "0 < rows"
    and "\<forall>y\<in>nodes rows cols. (Src 0, y) \<in> (links B)\<^sup>*"
  shows "rows + cols \<le> card B + 1"
proof -
  have fin: "finite B" using assms(1) by (rule finite_subset) simp
  have "card (nodes rows cols) \<le> card B + 1"
  proof (rule grow_tree[OF fin assms(1) assms(3), of "{Src 0}" "{}"])
    show "Src 0 \<in> {Src 0}" by simp
    show "{Src 0} \<subseteq> nodes rows cols" using assms(2) by (simp add: nodes_def)
  qed simp_all
  then show ?thesis by (simp add: card_nodes)
qed

text \<open>A cell whose two nodes stay joined without it can be removed from a chain.\<close>

lemma reroute:
  assumes "(Src r, Dst c) \<in> (links (B - {(r, c)}))\<^sup>*"
  shows "(links B)\<^sup>* \<subseteq> (links (B - {(r, c)}))\<^sup>*"
proof -
  have "links B \<subseteq> (links (B - {(r, c)}))\<^sup>*"
  proof
    fix p assume p: "p \<in> links B"
    obtain x y where xy: "p = (x, y)" by (cases p)
    from p[unfolded xy] show "p \<in> (links (B - {(r, c)}))\<^sup>*"
    proof (cases rule: links_cases)
      case (1 r' c')
      show ?thesis
      proof (cases "(r', c') = (r, c)")
        case True
        then show ?thesis using assms xy 1 by simp
      next
        case False
        then have "(Src r', Dst c') \<in> links (B - {(r, c)})" using 1(1) by (intro links_cell) simp
        then show ?thesis using xy 1 by blast
      qed
    next
      case (2 r' c')
      show ?thesis
      proof (cases "(r', c') = (r, c)")
        case True
        then show ?thesis using links_rtrancl_sym[OF assms] xy 2 by simp
      next
        case False
        then have "(Src r', Dst c') \<in> links (B - {(r, c)})" using 2(1) by (intro links_cell) simp
        then have "(Dst c', Src r') \<in> links (B - {(r, c)})" by (rule links_sym)
        then show ?thesis using xy 2 by blast
      qed
    qed
  qed
  then show ?thesis by (rule rtrancl_subset_rtrancl)
qed

text \<open>A connected basis of \<open>rows + cols - 1\<close> cells has no cycle.\<close>

lemma connected_count_acyclic:
  assumes "B \<subseteq> {..<rows} \<times> {..<cols}" "0 < rows"
    and "\<forall>y\<in>nodes rows cols. (Src 0, y) \<in> (links B)\<^sup>*"
    and "card B + 1 = rows + cols"
  shows "acyclic_basis B"
  unfolding acyclic_basis_def
proof
  fix e assume e: "e \<in> B"
  obtain r c where rc: "e = (r, c)" by (cases e)
  have fin: "finite B" using assms(1) by (rule finite_subset) simp
  show "(Src (fst e), Dst (snd e)) \<notin> (links (B - {e}))\<^sup>*"
  proof
    assume "(Src (fst e), Dst (snd e)) \<in> (links (B - {e}))\<^sup>*"
    then have "(links B)\<^sup>* \<subseteq> (links (B - {e}))\<^sup>*" unfolding rc by (simp add: reroute)
    then have "\<forall>y\<in>nodes rows cols. (Src 0, y) \<in> (links (B - {e}))\<^sup>*" using assms(3) by blast
    moreover have "B - {e} \<subseteq> {..<rows} \<times> {..<cols}" using assms(1) by blast
    ultimately have "rows + cols \<le> card (B - {e}) + 1" using assms(2) by (intro connected_count)
    moreover have "card (B - {e}) + 1 = card B" using card_Suc_Diff1[OF fin e] by simp
    ultimately show False using assms(4) by simp
  qed
qed

lemma connected_from_root:
  assumes "\<forall>y\<in>nodes rows cols. (Src 0, y) \<in> (links B)\<^sup>*"
  shows "connected_basis B rows cols"
  unfolding connected_basis_def
proof (intro ballI)
  fix x y assume "x \<in> nodes rows cols" "y \<in> nodes rows cols"
  then have "(Src 0, x) \<in> (links B)\<^sup>*" "(Src 0, y) \<in> (links B)\<^sup>*" using assms by simp_all
  then show "(x, y) \<in> (links B)\<^sup>*" using links_rtrancl_sym by (meson rtrancl_trans)
qed

lemma basics_subset: "basics g rows cols \<subseteq> {..<rows} \<times> {..<cols}"
  by (auto simp: basics_def)

text \<open>The invariant, from connectedness and the number of basic cells.\<close>

lemma basis_invariantI:
  assumes "0 < rows" "card (basics g rows cols) + 1 = rows + cols"
    and "\<forall>y\<in>nodes rows cols. (Src 0, y) \<in> (links (basics g rows cols))\<^sup>*"
  shows "basis_invariant g rows cols"
  unfolding basis_invariant_def
  using assms connected_from_root[OF assms(3)]
    connected_count_acyclic[OF basics_subset assms(1,3,2)] by simp

section \<open>The running example satisfies the invariant\<close>

lemma basics_scan:
  "basics g rows cols = set (filter (\<lambda>rc. isBasin (g ! fst rc ! snd rc)) (scan rows cols))"
  by (auto simp: basics_def)

lemma scan_2_2: "scan 2 2 = [(0, 0), (0, 1), (1, 0), (1, 1)]"
  by code_simp

lemma basics_ex_grid: "basics ex_grid 2 2 = {(0, 0), (0, 1), (1, 1)}"
  by (simp add: basics_scan scan_2_2 ex_grid_def mk_cell_def)

lemma basis_invariant_ex_grid: "basis_invariant ex_grid 2 2"
proof (rule basis_invariantI)
  show "0 < (2::nat)" by simp
  show "card (basics ex_grid 2 2) + 1 = 2 + 2" by (simp add: basics_ex_grid)
  have l: "(Src 0, Dst 0) \<in> links (basics ex_grid 2 2)" "(Src 0, Dst 1) \<in> links (basics ex_grid 2 2)"
    "(Dst 1, Src 1) \<in> links (basics ex_grid 2 2)"
    by (auto simp: basics_ex_grid links_def)
  have "(Src 0, Src 1) \<in> (links (basics ex_grid 2 2))\<^sup>*" using l(2,3) by (meson rtrancl.simps)
  moreover have "nodes 2 2 = {Src 0, Src 1, Dst 0, Dst 1}"
    by (auto simp: nodes_def lessThan_Suc numeral_2_eq_2)
  ultimately show "\<forall>y\<in>nodes 2 2. (Src 0, y) \<in> (links (basics ex_grid 2 2))\<^sup>*"
    using l(1,2) by auto
qed

section \<open>Claim C3: potentials on a spanning tree\<close>

definition known :: "int option \<Rightarrow> bool" where
  "known x = (x \<noteq> None)"

definition knowns :: "int option list \<times> int option list \<Rightarrow> nat" where
  "knowns uv = length (filter known (fst uv)) + length (filter known (snd uv))"

lemma filter_known_update:
  "i < length xs \<Longrightarrow> xs ! i = None \<Longrightarrow>
   length (filter known (xs[i := Some y])) = Suc (length (filter known xs))"
proof (induction xs arbitrary: i)
  case Nil then show ?case by simp
next
  case (Cons a xs)
  then show ?case by (cases i) (auto simp: known_def)
qed

text \<open>The facts that hold of \<open>u\<close> and \<open>v\<close> throughout the propagation.\<close>

definition solved :: "Grid \<Rightarrow> int option list \<Rightarrow> int option list \<Rightarrow> LoopNode \<Rightarrow> bool" where
  "solved g u v e =
     (\<exists>a b. u ! fst e = Some a \<and> v ! snd e = Some b \<and> a + b = cost (g ! fst e ! snd e))"

definition used_cells ::
  "Grid \<Rightarrow> nat \<Rightarrow> nat \<Rightarrow> int option list \<Rightarrow> int option list \<Rightarrow> LoopNode set \<Rightarrow> bool" where
  "used_cells g rows cols u v T =
     (T \<subseteq> basics g rows cols \<and> card T + 1 = knowns (u, v) \<and> (\<forall>e\<in>T. solved g u v e))"

definition pot_inv :: "Grid \<Rightarrow> nat \<Rightarrow> nat \<Rightarrow> int option list \<times> int option list \<Rightarrow> bool" where
  "pot_inv g rows cols uv =
     (length (fst uv) = rows \<and> length (snd uv) = cols \<and> fst uv ! 0 = Some 0
      \<and> (\<exists>T. used_cells g rows cols (fst uv) (snd uv) T))"

lemma pot_step_cases:
  assumes "pot_step g (r, c) (u, v, ch) = (u', v', ch')" "r < length u" "c < length v"
  obtains (fill_v) a where "isBasin (g ! r ! c)" "u ! r = Some a" "v ! c = None"
      "u' = u" "v' = v[c := Some (cost (g ! r ! c) - a)]" "ch'"
    | (fill_u) b where "isBasin (g ! r ! c)" "v ! c = Some b" "u ! r = None"
      "u' = u[r := Some (cost (g ! r ! c) - b)]" "v' = v" "ch'"
    | (none) "u' = u" "v' = v" "ch' = ch"
      "isBasin (g ! r ! c) \<longrightarrow> (u ! r = None \<longleftrightarrow> v ! c = None)"
proof -
  have nul: "is_null u r = (u ! r = None)" "is_null v c = (v ! c = None)"
    using assms(2,3) by (simp_all add: is_null_def)
  note st = assms(1)[unfolded pot_step_def prod.case nul]
  show thesis
  proof (cases "isBasin (g ! r ! c)")
    case False
    then have "u' = u" "v' = v" "ch' = ch" using st by simp_all
    then show thesis using False by (intro none) simp_all
  next
    case True
    show thesis
    proof (cases "u ! r")
      case None
      show thesis
      proof (cases "v ! c")
        case N2: None
        then have "u' = u" "v' = v" "ch' = ch" using st True None by simp_all
        then show thesis using None N2 by (intro none) simp_all
      next
        case (Some b)
        then have "u' = u[r := Some (cost (g ! r ! c) - b)]" "v' = v" "ch'" using st True None by simp_all
        then show thesis using True Some None by (intro fill_u[of b]) simp_all
      qed
    next
      case (Some a)
      show thesis
      proof (cases "v ! c")
        case None
        then have "u' = u" "v' = v[c := Some (cost (g ! r ! c) - a)]" "ch'" using st True Some by simp_all
        then show thesis using True Some None by (intro fill_v[of a]) simp_all
      next
        case S2: (Some b)
        then have "u' = u" "v' = v" "ch' = ch" using st True Some by simp_all
        then show thesis using Some S2 by (intro none) simp_all
      qed
    qed
  qed
qed

lemma pot_step_inv:
  assumes "pot_inv g rows cols (u, v)" "0 < rows" "r < rows" "c < cols"
    and "pot_step g (r, c) (u, v, ch) = (u', v', ch')"
  shows "pot_inv g rows cols (u', v')"
proof -
  from assms(1) have len: "length u = rows" "length v = cols" and u0: "u ! 0 = Some 0"
    by (simp_all add: pot_inv_def)
  from assms(1) obtain T where "used_cells g rows cols u v T"
    by (auto simp: pot_inv_def)
  then have T: "T \<subseteq> basics g rows cols" "card T + 1 = knowns (u, v)" "\<And>e. e \<in> T \<Longrightarrow> solved g u v e"
    by (simp_all add: used_cells_def)
  have fin: "finite T" using T(1) finite_basics by (rule finite_subset)
  have rc: "r < length u" "c < length v" using assms(3,4) len by simp_all
  from assms(5) rc show ?thesis
  proof (cases rule: pot_step_cases)
    case (fill_v a)
    let ?T = "insert (r, c) T"
    have notin: "(r, c) \<notin> T"
    proof
      assume "(r, c) \<in> T"
      from T(3)[OF this] show False using fill_v(3) by (simp add: solved_def)
    qed
    have "?T \<subseteq> basics g rows cols"
      using T(1) fill_v(1) assms(3,4) by (simp add: basics_def)
    moreover have "card ?T + 1 = knowns (u', v')"
      using T(2) notin fin fill_v(3,4,5) rc(2)
      by (simp add: knowns_def filter_known_update)
    moreover have "solved g u' v' e" if "e \<in> ?T" for e
    proof (cases "e = (r, c)")
      case True
      then show ?thesis using fill_v(2,4,5) rc(2) by (simp add: solved_def)
    next
      case False
      then have "solved g u v e" using that T(3) by simp
      then obtain a' b' where ab: "u ! fst e = Some a'" "v ! snd e = Some b'" "a' + b' = cost (g ! fst e ! snd e)"
        unfolding solved_def by (elim exE conjE)
      then have "snd e \<noteq> c" using fill_v(3) by auto
      then show ?thesis using ab fill_v(4,5) by (simp add: solved_def)
    qed
    ultimately have "used_cells g rows cols u' v' ?T" by (simp add: used_cells_def)
    then show ?thesis
      using len u0 fill_v(4,5) by (auto simp: pot_inv_def)
  next
    case (fill_u b)
    let ?T = "insert (r, c) T"
    have notin: "(r, c) \<notin> T"
    proof
      assume "(r, c) \<in> T"
      from T(3)[OF this] show False using fill_u(3) by (simp add: solved_def)
    qed
    have r0: "r \<noteq> 0" using u0 fill_u(3) by (cases r) auto
    have "?T \<subseteq> basics g rows cols"
      using T(1) fill_u(1) assms(3,4) by (simp add: basics_def)
    moreover have "card ?T + 1 = knowns (u', v')"
      using T(2) notin fin fill_u(3,4,5) rc(1)
      by (simp add: knowns_def filter_known_update)
    moreover have "solved g u' v' e" if "e \<in> ?T" for e
    proof (cases "e = (r, c)")
      case True
      then show ?thesis using fill_u(2,4,5) rc(1) by (simp add: solved_def)
    next
      case False
      then have "solved g u v e" using that T(3) by simp
      then obtain a' b' where ab: "u ! fst e = Some a'" "v ! snd e = Some b'" "a' + b' = cost (g ! fst e ! snd e)"
        unfolding solved_def by (elim exE conjE)
      then have "fst e \<noteq> r" using fill_u(3) by auto
      then show ?thesis using ab fill_u(4,5) by (simp add: solved_def)
    qed
    ultimately have "used_cells g rows cols u' v' ?T" by (simp add: used_cells_def)
    then show ?thesis
      using len u0 r0 fill_u(4,5) by (auto simp: pot_inv_def)
  next
    case none
    then show ?thesis using assms(1) by simp
  qed
qed

lemma pot_fold_inv:
  assumes "pot_inv g rows cols (u, v)" "0 < rows" "\<forall>rc\<in>set cells. fst rc < rows \<and> snd rc < cols"
    and "fold (pot_step g) cells (u, v, ch) = (u', v', ch')"
  shows "pot_inv g rows cols (u', v')"
  using assms
proof (induction cells arbitrary: u v ch)
  case Nil
  then show ?case by simp
next
  case (Cons rc cells)
  obtain r c where rc: "rc = (r, c)" by (cases rc)
  obtain u1 v1 ch1 where s1: "pot_step g (r, c) (u, v, ch) = (u1, v1, ch1)"
    by (cases "pot_step g (r, c) (u, v, ch)")
  have inb: "r < rows" "c < cols" using Cons.prems(3) rc by simp_all
  have i1: "pot_inv g rows cols (u1, v1)"
    using pot_step_inv[OF Cons.prems(1,2) inb s1] .
  have f: "fold (pot_step g) cells (u1, v1, ch1) = (u', v', ch')"
    using Cons.prems(4) s1 rc by simp
  show ?case using Cons.IH[OF i1 Cons.prems(2) _ f] Cons.prems(3) by simp
qed

lemma pot_step_changed: "snd (snd (pot_step g rc (u, v, True)))"
  by (cases rc) (simp add: pot_step_def)

lemma pot_fold_changed: "snd (snd (fold (pot_step g) cells (u, v, True)))"
proof (induction cells arbitrary: u v)
  case Nil
  then show ?case by simp
next
  case (Cons rc cells)
  obtain u1 v1 ch1 where s1: "pot_step g rc (u, v, True) = (u1, v1, ch1)"
    by (cases "pot_step g rc (u, v, True)")
  have "ch1" using pot_step_changed[of g rc u v] s1 by simp
  then show ?case using Cons.IH[of u1 v1] s1 by simp
qed

text \<open>A pass that changes nothing has found every basic cell balanced.\<close>

lemma pot_fold_fixed:
  assumes "fold (pot_step g) cells (u, v, False) = (u', v', False)"
    and "\<forall>rc\<in>set cells. fst rc < length u \<and> snd rc < length v"
  shows "u' = u \<and> v' = v
         \<and> (\<forall>rc\<in>set cells. isBasin (g ! fst rc ! snd rc) \<longrightarrow> (u ! fst rc = None \<longleftrightarrow> v ! snd rc = None))"
  using assms
proof (induction cells)
  case Nil
  then show ?case by simp
next
  case (Cons rc cells)
  obtain r c where rc: "rc = (r, c)" by (cases rc)
  obtain u1 v1 ch1 where s1: "pot_step g (r, c) (u, v, False) = (u1, v1, ch1)"
    by (cases "pot_step g (r, c) (u, v, False)")
  have f: "fold (pot_step g) cells (u1, v1, ch1) = (u', v', False)"
    using Cons.prems(1) s1 rc by simp
  have "\<not> ch1"
  proof
    assume "ch1"
    then have "snd (snd (fold (pot_step g) cells (u1, v1, ch1)))"
      using pot_fold_changed[of g cells u1 v1] by simp
    then show False using f by simp
  qed
  have inb: "r < length u" "c < length v" using Cons.prems(2) rc by simp_all
  from s1 inb have same: "u1 = u" "v1 = v"
    and bal: "isBasin (g ! r ! c) \<longrightarrow> (u ! r = None \<longleftrightarrow> v ! c = None)"
    using \<open>\<not> ch1\<close> by (cases rule: pot_step_cases; simp)+
  have "fold (pot_step g) cells (u, v, False) = (u', v', False)"
    using f same \<open>\<not> ch1\<close> by simp
  from Cons.IH[OF this] Cons.prems(2) bal rc show ?case by simp
qed

text \<open>The result of the loop: the invariant, and a fixed point of the pass.\<close>

lemma pot_loop_result:
  assumes "pot_inv g rows cols uv" "0 < rows" "pot_loop g rows cols uv = (u', v')"
  shows "pot_inv g rows cols (u', v')
         \<and> (\<forall>r<rows. \<forall>c<cols. isBasin (g ! r ! c) \<longrightarrow> (u' ! r = None \<longleftrightarrow> v' ! c = None))"
  using assms
proof (induction g rows cols uv rule: pot_loop.induct)
  case (1 g rows cols uv)
  obtain u1 v1 ch where pp: "pot_pass g rows cols uv = (u1, v1, ch)"
    by (cases "pot_pass g rows cols uv")
  then have f: "fold (pot_step g) (scan rows cols) (fst uv, snd uv, False) = (u1, v1, ch)"
    by (simp add: pot_pass_def)
  have inb: "\<forall>rc\<in>set (scan rows cols). fst rc < rows \<and> snd rc < cols" by auto
  have inv0: "pot_inv g rows cols (fst uv, snd uv)" using "1.prems"(1) by simp
  have i1: "pot_inv g rows cols (u1, v1)"
    using pot_fold_inv[OF inv0 "1.prems"(2) inb f] .
  show ?case
  proof (cases ch)
    case True
    then have "pot_loop g rows cols (u1, v1) = (u', v')"
      using "1.prems"(3) pp by (subst (asm) pot_loop.simps) simp
    from "1.IH"[OF pp[symmetric] refl True i1 "1.prems"(2) this] show ?thesis .
  next
    case False
    then have res: "u1 = u'" "v1 = v'"
      using "1.prems"(3) pp by (subst (asm) pot_loop.simps, simp)+
    have len: "length (fst uv) = rows" "length (snd uv) = cols"
      using "1.prems"(1) by (simp_all add: pot_inv_def)
    have inb': "\<forall>rc\<in>set (scan rows cols). fst rc < length (fst uv) \<and> snd rc < length (snd uv)"
      using len by auto
    have f': "fold (pot_step g) (scan rows cols) (fst uv, snd uv, False) = (u1, v1, False)"
      using f False by simp
    from pot_fold_fixed[OF f' inb']
    have same: "u1 = fst uv" "v1 = snd uv"
      and bal: "\<forall>rc\<in>set (scan rows cols). isBasin (g ! fst rc ! snd rc) \<longrightarrow>
                 (fst uv ! fst rc = None \<longleftrightarrow> snd uv ! snd rc = None)"
      by simp_all
    have "isBasin (g ! r ! c) \<longrightarrow> (u' ! r = None \<longleftrightarrow> v' ! c = None)" if "r < rows" "c < cols" for r c
    proof -
      have "(r, c) \<in> set (scan rows cols)" using that by simp
      from bal[rule_format, OF this] show ?thesis using same res by simp
    qed
    then show ?thesis using i1 res by simp
  qed
qed

lemma knowns_initial: "0 < rows \<Longrightarrow> knowns (initial_u rows, replicate cols None) = 1"
proof -
  assume r: "0 < rows"
  have z: "filter known (replicate n None) = []" for n
    by (induction n) (simp_all add: known_def)
  have "length (filter known ((replicate rows None)[0 := Some 0])) = Suc (length (filter known (replicate rows None)))"
    using r by (intro filter_known_update) simp_all
  then show ?thesis using r by (simp add: knowns_def initial_u_def z)
qed

lemma pot_inv_initial:
  assumes "0 < rows"
  shows "pot_inv g rows cols (initial_u rows, replicate cols None)"
proof -
  have "used_cells g rows cols (initial_u rows) (replicate cols None) {}"
    using knowns_initial[OF assms, of cols] by (simp add: used_cells_def)
  then show ?thesis using assms by (auto simp: pot_inv_def initial_u_def)
qed

lemma all_known_filter:
  assumes "\<forall>i<length xs. xs ! i \<noteq> None"
  shows "length (filter known xs) = length xs"
proof -
  have "\<forall>x\<in>set xs. known x" using assms by (auto simp: in_set_conv_nth known_def)
  then show ?thesis by simp
qed

text \<open>
  Known potentials spread along the links of the basis: at a fixed point of the pass,
  every node joined to source 0 has a known potential.
\<close>

lemma known_reachable:
  assumes bal: "\<forall>r<rows. \<forall>c<cols. isBasin (g ! r ! c) \<longrightarrow> (u ! r = None \<longleftrightarrow> v ! c = None)"
    and u0: "u ! 0 \<noteq> None" and reach: "(Src 0, y) \<in> (links (basics g rows cols))\<^sup>*"
  shows "case y of Src r \<Rightarrow> u ! r \<noteq> None | Dst c \<Rightarrow> v ! c \<noteq> None"
  using reach
proof (induction rule: rtrancl_induct)
  case base
  then show ?case using u0 by simp
next
  case (step y z)
  from step.hyps(2) show ?case
  proof (cases rule: links_cases)
    case (1 r c)
    then have "r < rows" "c < cols" "isBasin (g ! r ! c)" by (simp_all add: basics_def)
    from bal[rule_format, OF this] show ?thesis using step.IH 1 by simp
  next
    case (2 r c)
    then have "r < rows" "c < cols" "isBasin (g ! r ! c)" by (simp_all add: basics_def)
    from bal[rule_format, OF this] show ?thesis using step.IH 2 by simp
  qed
qed

lemma potentials_on_tree:
  assumes "rect g rows cols" and "0 < rows" and "0 < cols" and "basis_invariant g rows cols"
  shows "\<exists>u v. calculatePotentials g rows cols = Inr (u, v)
           \<and> length u = rows \<and> length v = cols
           \<and> (\<forall>r<rows. u ! r \<noteq> None) \<and> (\<forall>c<cols. v ! c \<noteq> None)
           \<and> u ! 0 = Some 0
           \<and> (\<forall>r<rows. \<forall>c<cols. isBasin (g ! r ! c) \<longrightarrow> the (u ! r) + the (v ! c) = cost (g ! r ! c))"
proof -
  let ?B = "basics g rows cols"
  obtain u v where uv: "pot_loop g rows cols (initial_u rows, replicate cols None) = (u, v)"
    by (cases "pot_loop g rows cols (initial_u rows, replicate cols None)")
  have call: "calculatePotentials g rows cols = Inr (u, v)"
    using rect_covers[OF assms(1)] uv by (simp add: calculatePotentials_def)
  from pot_loop_result[OF pot_inv_initial[OF assms(2)] assms(2) uv]
  have inv: "pot_inv g rows cols (u, v)"
    and bal: "\<forall>r<rows. \<forall>c<cols. isBasin (g ! r ! c) \<longrightarrow> (u ! r = None \<longleftrightarrow> v ! c = None)"
    by simp_all
  from inv have len: "length u = rows" "length v = cols" and u0: "u ! 0 = Some 0"
    by (simp_all add: pot_inv_def)
  from inv obtain T where "used_cells g rows cols u v T" by (auto simp: pot_inv_def)
  then have T: "T \<subseteq> ?B" "card T + 1 = knowns (u, v)" "\<And>e. e \<in> T \<Longrightarrow> solved g u v e"
    by (simp_all add: used_cells_def)
  have conn: "connected_basis ?B rows cols" and cnt: "card ?B + 1 = rows + cols"
    using assms(4) by (simp_all add: basis_invariant_def)
  have src0: "Src 0 \<in> nodes rows cols" using assms(2) by (simp add: nodes_def)
  have ku: "u ! r \<noteq> None" if "r < rows" for r
  proof -
    have "Src r \<in> nodes rows cols" using that by (simp add: nodes_def)
    then have "(Src 0, Src r) \<in> (links ?B)\<^sup>*" using conn src0 by (simp add: connected_basis_def)
    from known_reachable[OF bal _ this] u0 show ?thesis by simp
  qed
  have kv: "v ! c \<noteq> None" if "c < cols" for c
  proof -
    have "Dst c \<in> nodes rows cols" using that by (simp add: nodes_def)
    then have "(Src 0, Dst c) \<in> (links ?B)\<^sup>*" using conn src0 by (simp add: connected_basis_def)
    from known_reachable[OF bal _ this] u0 show ?thesis by simp
  qed
  have "knowns (u, v) = rows + cols"
    using all_known_filter[of u] all_known_filter[of v] ku kv len by (simp add: knowns_def)
  then have "card T = card ?B" using T(2) cnt by simp
  then have TB: "T = ?B" using T(1) finite_basics by (intro card_subset_eq) simp_all
  have eq: "the (u ! r) + the (v ! c) = cost (g ! r ! c)" if "r < rows" "c < cols" "isBasin (g ! r ! c)" for r c
  proof -
    have "(r, c) \<in> T" using that TB by (simp add: basics_def)
    from T(3)[OF this] show ?thesis by (auto simp: solved_def)
  qed
  show ?thesis
  proof (intro exI conjI)
    show "calculatePotentials g rows cols = Inr (u, v)" by fact
    show "length u = rows" "length v = cols" by fact+
    show "\<forall>r<rows. u ! r \<noteq> None" using ku by simp
    show "\<forall>c<cols. v ! c \<noteq> None" using kv by simp
    show "u ! 0 = Some 0" by fact
    show "\<forall>r<rows. \<forall>c<cols. isBasin (g ! r ! c) \<longrightarrow> the (u ! r) + the (v ! c) = cost (g ! r ! c)"
      using eq by simp
  qed
qed

text \<open>
  Claim C3. On a rectangular grid with at least one row and one column whose basis
  satisfies the invariant, \<open>calculatePotentials\<close> returns \<open>u\<close> (one entry for each row)
  and \<open>v\<close> (one for each column) without unknown entries, with \<open>u[0] = 0\<close>, and with
  \<open>u[r] + v[c] = cost(r,c)\<close> at every basic cell \<open>(r,c)\<close>.
\<close>

theorem calculatePotentials_on_tree:
  assumes "rect g rows cols" and "0 < rows" and "0 < cols" and "basis_invariant g rows cols"
  shows "\<exists>u v. calculatePotentials g rows cols = Inr (u, v)
           \<and> length u = rows \<and> length v = cols
           \<and> (\<forall>r<rows. u ! r \<noteq> None) \<and> (\<forall>c<cols. v ! c \<noteq> None)
           \<and> u ! 0 = Some 0
           \<and> (\<forall>r<rows. \<forall>c<cols. isBasin (g ! r ! c) \<longrightarrow> the (u ! r) + the (v ! c) = cost (g ! r ! c))"
  using assms by (rule potentials_on_tree)

theorem calculatePotentials_on_tree_witness:
  "\<exists>u v. calculatePotentials ex_grid 2 2 = Inr (u, v) \<and> length u = 2 \<and> length v = 2 \<and> u ! 0 = Some 0"
proof -
  have h: "0 < (2::nat)" by simp
  from calculatePotentials_on_tree[OF rect_ex_grid h h basis_invariant_ex_grid]
  obtain u v where "calculatePotentials ex_grid 2 2 = Inr (u, v)" "length u = 2" "length v = 2"
    "u ! 0 = Some 0"
    by (elim exE conjE)
  then show ?thesis by (intro exI conjI)
qed

section \<open>Claim C4: the closed loop on a spanning tree\<close>

text \<open>
  A row move changes the column and keeps the row; a column move changes the row and
  keeps the column. \<open>alt h p\<close>: the moves along \<open>p\<close> alternate, the first being a row move
  if \<open>h\<close> and a column move otherwise.
\<close>

definition move :: "bool \<Rightarrow> LoopNode \<Rightarrow> LoopNode \<Rightarrow> bool" where
  "move h a b = (if h then fst a = fst b \<and> snd a \<noteq> snd b else snd a = snd b \<and> fst a \<noteq> fst b)"

fun alt :: "bool \<Rightarrow> LoopNode list \<Rightarrow> bool" where
  "alt h [] = True"
| "alt h [a] = True"
| "alt h (a # b # p) = (move h a b \<and> alt (\<not> h) (b # p))"

lemma alt_snoc:
  "alt h (p @ [a]) \<Longrightarrow> move (h = even (length p)) a b \<Longrightarrow> alt h (p @ [a, b])"
proof (induction p arbitrary: h)
  case Nil
  then show ?case by simp
next
  case (Cons x p)
  show ?case
  proof (cases p)
    case Nil
    then show ?thesis using Cons.prems by simp
  next
    case (Cons y q)
    have "alt (\<not> h) (p @ [a])" "move h x y" using Cons.prems(1) Cons by simp_all
    moreover have "((\<not> h) = even (length p)) = (h = even (length (x # p)))" by auto
    then have "move ((\<not> h) = even (length p)) a b" using Cons.prems(2) by simp
    ultimately have "alt (\<not> h) (p @ [a, b])" using Cons.IH by blast
    then show ?thesis using \<open>move h x y\<close> Cons by simp
  qed
qed

text \<open>On a rectangular grid, from a cell of the grid, the candidates are computed without error.\<close>

definition candidates :: "Grid \<Rightarrow> nat \<Rightarrow> nat \<Rightarrow> LoopNode \<Rightarrow> LoopNode \<Rightarrow> bool \<Rightarrow> LoopNode list" where
  "candidates g rows cols start cur h =
     (if h then map (\<lambda>c. (fst cur, c))
                 (filter (\<lambda>c. (c = snd start \<and> fst cur = fst start) \<or> isBasin (g ! fst cur ! c))
                    (filter (\<lambda>c. c \<noteq> snd cur) [0..<cols]))
      else map (\<lambda>r. (r, snd cur))
                 (filter (\<lambda>r. (r = fst start \<and> snd cur = snd start) \<or> isBasin (g ! r ! snd cur))
                    (filter (\<lambda>r. r \<noteq> fst cur) [0..<rows])))"

lemma nextNodes_rect:
  assumes "rect g rows cols" "fst cur < rows" "snd cur < cols"
  shows "nextNodes g rows cols start cur h = Inr (candidates g rows cols start cur h)"
proof -
  have hc: "has_cell g r c = (r < rows \<and> c < cols)" for r c
    using assms(1) by (rule rect_has_cell)
  show ?thesis
    using assms(2,3)
    by (simp add: nextNodes_def row_next_def col_next_def candidates_def Let_def list_ex_iff hc)
qed

lemma candidates_iff:
  assumes "fst cur < rows" "snd cur < cols"
  shows "n \<in> set (candidates g rows cols start cur h) \<longleftrightarrow>
     move h cur n \<and> fst n < rows \<and> snd n < cols \<and> (n = start \<or> isBasin (g ! fst n ! snd n))"
  using assms by (cases n) (auto simp: candidates_def move_def)

lemma alt_append_left: "alt h (p @ r) \<Longrightarrow> alt h p"
proof (induction p arbitrary: h)
  case Nil
  then show ?case by simp
next
  case (Cons x p)
  then show ?case by (cases p) auto
qed

lemma alt_last_move:
  "alt h (p @ [a, b]) \<Longrightarrow> move (h = even (length p)) a b"
proof (induction p arbitrary: h)
  case Nil
  then show ?case by simp
next
  case (Cons x p)
  have "alt (\<not> h) (p @ [a, b])" using Cons.prems by (cases p) auto
  then have "move ((\<not> h) = even (length p)) a b" by (rule Cons.IH)
  moreover have "((\<not> h) = even (length p)) = (h = even (length (x # p)))" by auto
  ultimately show ?case by simp
qed

text \<open>
  A path under construction: it starts at the start cell, visits distinct cells of the
  grid, all basic but the first, by alternating moves.
\<close>

definition path_ok :: "Grid \<Rightarrow> nat \<Rightarrow> nat \<Rightarrow> LoopNode \<Rightarrow> bool \<Rightarrow> LoopNode list \<Rightarrow> bool" where
  "path_ok g rows cols start h p =
     (p \<noteq> [] \<and> hd p = start \<and> distinct p \<and> alt h p
      \<and> (\<forall>n\<in>set p. fst n < rows \<and> snd n < cols)
      \<and> (\<forall>n\<in>set (tl p). isBasin (g ! fst n ! snd n)))"

text \<open>A closed loop: such a path of at least three cells, closed by one more move to the start.\<close>

definition closed_ok :: "Grid \<Rightarrow> nat \<Rightarrow> nat \<Rightarrow> LoopNode \<Rightarrow> bool \<Rightarrow> LoopNode list \<Rightarrow> bool" where
  "closed_ok g rows cols start h p =
     (4 \<le> length p \<and> last p = start \<and> alt h p \<and> path_ok g rows cols start h (butlast p))"

text \<open>\<open>q\<close> completes the path \<open>p\<close> to a closed loop.\<close>

definition completion :: "Grid \<Rightarrow> nat \<Rightarrow> nat \<Rightarrow> LoopNode \<Rightarrow> bool \<Rightarrow> LoopNode list \<Rightarrow> LoopNode list \<Rightarrow> bool" where
  "completion g rows cols start h p q = closed_ok g rows cols start h (p @ q @ [start])"

lemma path_ok_length:
  assumes "path_ok g rows cols start h p"
  shows "length p \<le> rows * cols"
proof -
  have "set p \<subseteq> {..<rows} \<times> {..<cols}" using assms by (auto simp: path_ok_def)
  then have "card (set p) \<le> card ({..<rows} \<times> {..<cols})" by (intro card_mono) simp_all
  moreover have "card (set p) = length p" using assms by (simp add: path_ok_def distinct_card)
  ultimately show ?thesis by simp
qed

lemma path_ok_snoc:
  assumes "path_ok g rows cols start h (p @ [a])" "move (h = even (length p)) a b"
    "b \<notin> set (p @ [a])" "fst b < rows" "snd b < cols" "isBasin (g ! fst b ! snd b)"
  shows "path_ok g rows cols start h (p @ [a, b])"
proof -
  have "alt h (p @ [a, b])" using assms(1,2) by (simp add: path_ok_def alt_snoc)
  moreover have "tl (p @ [a, b]) = tl (p @ [a]) @ [b]" by (cases p) simp_all
  moreover have "hd (p @ [a, b]) = hd (p @ [a])" by (cases p) simp_all
  ultimately show ?thesis using assms unfolding path_ok_def by auto
qed

text \<open>What a completion through the candidate \<open>t\<close> is.\<close>

definition via :: "Grid \<Rightarrow> nat \<Rightarrow> nat \<Rightarrow> LoopNode \<Rightarrow> bool \<Rightarrow> LoopNode list \<Rightarrow> LoopNode \<Rightarrow> bool" where
  "via g rows cols start h p t =
     (if t = start then 4 \<le> length p + 1
      else (\<exists>q. completion g rows cols start h (p @ [t]) q))"

text \<open>The outcome of a call, or of the loop over the candidates, from the state \<open>st\<close>.\<close>

definition outcome ::
  "Grid \<Rightarrow> nat \<Rightarrow> nat \<Rightarrow> LoopNode \<Rightarrow> bool \<Rightarrow> search_result \<Rightarrow> search_state \<Rightarrow> bool \<Rightarrow> bool" where
  "outcome g rows cols start h res back complete =
     (\<exists>b st'. res = Inr (b, st') \<and> (\<not> b \<longrightarrow> st' = back)
        \<and> (b \<longrightarrow> closed_ok g rows cols start h (fst st')) \<and> (complete \<longrightarrow> b))"

lemma outcomeI:
  "res = Inr (b, st') \<Longrightarrow> (\<not> b \<Longrightarrow> st' = back) \<Longrightarrow> (b \<Longrightarrow> closed_ok g rows cols start h (fst st'))
   \<Longrightarrow> (complete \<Longrightarrow> b) \<Longrightarrow> outcome g rows cols start h res back complete"
  unfolding outcome_def by blast

lemma outcome_weaken:
  "outcome g rows cols start h res back complete \<Longrightarrow> (complete' \<Longrightarrow> complete)
   \<Longrightarrow> outcome g rows cols start h res back complete'"
  unfolding outcome_def by blast

lemma via_not_visited:
  assumes "via g rows cols start h p t" "t \<noteq> start"
  shows "t \<notin> set p"
proof -
  from assms obtain q where "completion g rows cols start h (p @ [t]) q" by (auto simp: via_def)
  then have "distinct (butlast ((p @ [t]) @ q @ [start]))"
    by (simp add: completion_def closed_ok_def path_ok_def)
  then have "distinct (p @ [t] @ q)" by (simp add: butlast_append)
  then show ?thesis by simp
qed

definition is_prev :: "LoopNode list \<Rightarrow> LoopNode \<Rightarrow> bool" where
  "is_prev p n = (2 \<le> length p \<and> p ! (length p - 2) = n)"

lemma is_prev_snoc: "is_prev (path @ [cur]) n = (path \<noteq> [] \<and> last path = n)"
proof (cases "path = []")
  case True
  then show ?thesis by (simp add: is_prev_def)
next
  case False
  then have "(path @ [cur]) ! (length (path @ [cur]) - 2) = last path"
    by (simp add: nth_append last_conv_nth)
  moreover have "2 \<le> length (path @ [cur])" using False by (cases path) simp_all
  ultimately show ?thesis using False by (simp add: is_prev_def)
qed

lemma search_from_skip_prev:
  "is_prev p nx \<Longrightarrow> search_from rec start cur h (nx # rest) (p, vis) = search_from rec start cur h rest (p, vis)"
  by (auto simp: is_prev_def)

lemma search_from_skip_visited:
  "\<not> is_prev p nx \<Longrightarrow> nx \<in> vis \<Longrightarrow> nx \<noteq> start
   \<Longrightarrow> search_from rec start cur h (nx # rest) (p, vis) = search_from rec start cur h rest (p, vis)"
  by (auto simp: is_prev_def)

lemma search_from_found:
  "\<not> is_prev p nx \<Longrightarrow> nx \<notin> vis \<or> nx = start \<Longrightarrow> rec nx (\<not> h) (p, vis) = Inr (True, st')
   \<Longrightarrow> search_from rec start cur h (nx # rest) (p, vis) = Inr (True, st')"
  by (auto simp: is_prev_def)

lemma search_from_failed:
  "\<not> is_prev p nx \<Longrightarrow> nx \<notin> vis \<or> nx = start \<Longrightarrow> rec nx (\<not> h) (p, vis) = Inr (False, st')
   \<Longrightarrow> search_from rec start cur h (nx # rest) (p, vis) = search_from rec start cur h rest st'"
  by (auto simp: is_prev_def)

declare search_from.simps(2) [simp del]

lemma search_from_spec:
  assumes A1: "\<And>nx. path_ok g rows cols start h0 (path @ [cur, nx]) \<Longrightarrow>
            outcome g rows cols start h0 (rec nx (\<not> hor) (path @ [cur], vis1)) (path @ [cur], vis1)
              (\<exists>q. completion g rows cols start h0 (path @ [cur, nx]) q)"
    and A2: "rec start (\<not> hor) (path @ [cur], vis1) =
               (if 4 \<le> length (path @ [cur]) + 1 then Inr (True, (path @ [cur, start], insert start vis1))
                else Inr (False, (path @ [cur], vis1)))"
    and P: "path_ok g rows cols start h0 (path @ [cur])" "vis1 = set (path @ [cur])"
           "hor = (h0 = even (length path))"
    and N: "set nexts \<subseteq> set (candidates g rows cols start cur hor)"
  shows "outcome g rows cols start h0
           (search_from rec start cur hor nexts (path @ [cur], vis1)) (path, vis1 - {cur})
           (\<exists>t\<in>set nexts. via g rows cols start h0 (path @ [cur]) t)"
  using N
proof (induction nexts)
  case Nil
  show ?case by (rule outcomeI[of _ False "(path, vis1 - {cur})"]) simp_all
next
  case (Cons nx rest)
  let ?p1 = "path @ [cur]"
  have cur_in: "fst cur < rows" "snd cur < cols" using P(1) by (simp_all add: path_ok_def)
  have nxc: "nx \<in> set (candidates g rows cols start cur hor)" using Cons.prems by simp
  then have nx: "move hor cur nx" "fst nx < rows" "snd nx < cols" "nx = start \<or> isBasin (g ! fst nx ! snd nx)"
    using candidates_iff[OF cur_in] by simp_all
  have IH: "outcome g rows cols start h0
           (search_from rec start cur hor rest (?p1, vis1)) (path, vis1 - {cur})
           (\<exists>t\<in>set rest. via g rows cols start h0 ?p1 t)"
    using Cons.IH Cons.prems by simp
  have hd1: "hd ?p1 = start" using P(1) by (simp add: path_ok_def)
  have "hd ?p1 \<in> set ?p1" by (rule hd_in_set) simp
  then have st_vis: "start \<in> vis1" using hd1 P(2) by simp
  note prev = is_prev_snoc[of path cur nx]
  text \<open>A candidate that is skipped completes nothing.\<close>
  have skip: "outcome g rows cols start h0
           (search_from rec start cur hor rest (?p1, vis1)) (path, vis1 - {cur})
           (\<exists>t\<in>set (nx # rest). via g rows cols start h0 ?p1 t)"
    if novia: "\<not> via g rows cols start h0 ?p1 nx"
    using IH by (rule outcome_weaken) (use novia in auto)
  show ?case
  proof (cases "path \<noteq> [] \<and> last path = nx")
    case True
    have "\<not> via g rows cols start h0 ?p1 nx"
    proof (cases "nx = start")
      case True
      then have "last path = hd path" using \<open>path \<noteq> [] \<and> last path = nx\<close> hd1 by simp
      moreover have "distinct path" using P(1) by (simp add: path_ok_def)
      ultimately have "length path = 1"
        using \<open>path \<noteq> [] \<and> last path = nx\<close>
        by (cases path) (auto simp: last_conv_nth dest: nth_eq_iff_index_eq)
      then show ?thesis using True by (simp add: via_def)
    next
      case False
      have "nx \<in> set ?p1" using True by auto
      then show ?thesis using via_not_visited[OF _ False] by blast
    qed
    moreover have "is_prev ?p1 nx" using True prev by simp
    ultimately show ?thesis using skip search_from_skip_prev[of ?p1 nx rec start cur hor rest vis1] by simp
  next
    case False
    then have noprev: "\<not> is_prev ?p1 nx" using prev by simp
    show ?thesis
    proof (cases "nx = start")
      case True
      show ?thesis
      proof (cases "4 \<le> length ?p1 + 1")
        case long: True
        have "alt h0 (path @ [cur, start])"
          using P(1,3) nx(1) True by (simp add: path_ok_def alt_snoc)
        then have cl: "closed_ok g rows cols start h0 (path @ [cur, start])"
          using long P(1) by (simp add: closed_ok_def butlast_append)
        have sf: "search_from rec start cur hor (nx # rest) (?p1, vis1)
            = Inr (True, (path @ [cur, start], insert start vis1))"
          using A2 long True by (intro search_from_found[OF noprev]) simp_all
        show ?thesis
        proof (rule outcomeI[OF sf])
          show "closed_ok g rows cols start h0 (fst (path @ [cur, start], insert start vis1))"
            using cl by simp
        qed simp_all
      next
        case short: False
        have "search_from rec start cur hor (nx # rest) (?p1, vis1)
            = search_from rec start cur hor rest (?p1, vis1)"
          using A2 short True by (intro search_from_failed[OF noprev]) simp_all
        moreover have "\<not> via g rows cols start h0 ?p1 nx" using True short by (simp add: via_def)
        ultimately show ?thesis using skip by simp
      qed
    next
      case False
      show ?thesis
      proof (cases "nx \<in> vis1")
        case True
        have "search_from rec start cur hor (nx # rest) (?p1, vis1)
            = search_from rec start cur hor rest (?p1, vis1)"
          using True False by (intro search_from_skip_visited[OF noprev])
        moreover have "\<not> via g rows cols start h0 ?p1 nx"
          using via_not_visited[OF _ False, of g rows cols h0 ?p1] True P(2) by blast
        ultimately show ?thesis using skip by simp
      next
        case fresh: False
        have ok: "path_ok g rows cols start h0 (path @ [cur, nx])"
          using P(1) nx fresh P(2,3) False by (intro path_ok_snoc) simp_all
        from A1[OF ok] obtain b st' where r: "rec nx (\<not> hor) (?p1, vis1) = Inr (b, st')"
          "\<not> b \<longrightarrow> st' = (?p1, vis1)" "b \<longrightarrow> closed_ok g rows cols start h0 (fst st')"
          "(\<exists>q. completion g rows cols start h0 (path @ [cur, nx]) q) \<longrightarrow> b"
          unfolding outcome_def by blast
        show ?thesis
        proof (cases b)
          case True
          have sf: "search_from rec start cur hor (nx # rest) (?p1, vis1) = Inr (True, st')"
            using fresh r(1) True by (intro search_from_found[OF noprev]) simp_all
          show ?thesis
          proof (rule outcomeI[OF sf])
            show "closed_ok g rows cols start h0 (fst st')" using r(3) True by simp
          qed simp_all
        next
          case nf: False
          have "rec nx (\<not> hor) (?p1, vis1) = Inr (False, (?p1, vis1))" using r(1,2) nf by simp
          then have "search_from rec start cur hor (nx # rest) (?p1, vis1)
              = search_from rec start cur hor rest (?p1, vis1)"
            using fresh by (intro search_from_failed[OF noprev]) simp_all
          moreover have "\<not> via g rows cols start h0 ?p1 nx"
            using r(4) nf False by (simp add: via_def)
          ultimately show ?thesis using skip by simp
        qed
      qed
    qed
  qed
qed

lemma search_closing:
  assumes "path1 \<noteq> []" "start \<in> vis1"
  shows "search (Suc f) g rows cols start start h (path1, vis1) =
           (if 4 \<le> length path1 + 1 then Inr (True, (path1 @ [start], insert start vis1))
            else Inr (False, (path1, vis1)))"
proof -
  have "insert start vis1 = vis1" using assms(2) by auto
  moreover have "1 < length (path1 @ [start])" using assms(1) by (cases path1) simp_all
  ultimately show ?thesis by (simp add: Let_def)
qed

lemma completion_via:
  assumes ok: "path_ok g rows cols start h0 (path @ [cur])"
    and hor: "hor = (h0 = even (length path))"
    and c: "completion g rows cols start h0 (path @ [cur]) q"
  shows "\<exists>t\<in>set (candidates g rows cols start cur hor). via g rows cols start h0 (path @ [cur]) t"
proof -
  have cur_in: "fst cur < rows" "snd cur < cols" using ok by (simp_all add: path_ok_def)
  have "hd (path @ [cur]) \<in> set (path @ [cur])" by (rule hd_in_set) simp
  then have st_in: "start \<in> set (path @ [cur])" using ok by (simp add: path_ok_def)
  then have start_in: "fst start < rows" "snd start < cols" using ok by (auto simp: path_ok_def)
  show ?thesis
  proof (cases q)
    case Nil
    then have cl: "closed_ok g rows cols start h0 (path @ [cur, start])"
      using c by (simp add: completion_def)
    then have "move hor cur start" using hor by (simp add: closed_ok_def alt_last_move)
    then have "start \<in> set (candidates g rows cols start cur hor)"
      using candidates_iff[OF cur_in] start_in by simp
    moreover have "via g rows cols start h0 (path @ [cur]) start"
      using cl by (simp add: via_def closed_ok_def)
    ultimately show ?thesis by blast
  next
    case (Cons t q')
    then have cl: "closed_ok g rows cols start h0 (path @ [cur, t] @ q' @ [start])"
      using c by (simp add: completion_def)
    then have po: "path_ok g rows cols start h0 (path @ [cur, t] @ q')"
      by (simp add: closed_ok_def butlast_append)
    have "alt h0 ((path @ [cur, t]) @ q' @ [start])" using cl by (simp add: closed_ok_def)
    then have "alt h0 (path @ [cur, t])" by (rule alt_append_left)
    then have mv: "move hor cur t" using hor by (simp add: alt_last_move)
    have t_in: "fst t < rows" "snd t < cols" using po by (simp_all add: path_ok_def)
    have "t \<in> set (tl (path @ [cur, t] @ q'))" by (cases path) simp_all
    then have t_basic: "isBasin (g ! fst t ! snd t)" using po unfolding path_ok_def by blast
    have "distinct (path @ [cur, t] @ q')" using po by (simp add: path_ok_def)
    then have "t \<notin> set (path @ [cur])" by auto
    then have t_ne: "t \<noteq> start" using st_in by auto
    have "t \<in> set (candidates g rows cols start cur hor)"
      using candidates_iff[OF cur_in] mv t_in t_basic by simp
    moreover have "completion g rows cols start h0 ((path @ [cur]) @ [t]) q'"
      using cl by (simp add: completion_def)
    then have "via g rows cols start h0 (path @ [cur]) t"
      using t_ne unfolding via_def by auto
    ultimately show ?thesis by blast
  qed
qed

text \<open>
  What a call of \<open>search\<close> does on a rectangular grid, with fuel for the cells not yet on
  the path: it fails and restores the state, or finds a closed loop; and finds one when
  the path has a completion.
\<close>

lemma search_spec:
  assumes "rect g rows cols"
  shows "path_ok g rows cols start h0 (path @ [cur]) \<Longrightarrow> vis = set path
     \<Longrightarrow> hor = (h0 = even (length path)) \<Longrightarrow> rows * cols + 1 \<le> fuel + length path
     \<Longrightarrow> outcome g rows cols start h0 (search fuel g rows cols start cur hor (path, vis)) (path, vis)
           (\<exists>q. completion g rows cols start h0 (path @ [cur]) q)"
proof (induction fuel arbitrary: path cur hor vis)
  case 0
  from path_ok_length[OF 0(1)] 0(4) show ?case by simp
next
  case (Suc fuel)
  let ?p1 = "path @ [cur]" and ?v1 = "insert cur vis"
  note ok = Suc.prems(1)
  have cur_in: "fst cur < rows" "snd cur < cols" using ok by (simp_all add: path_ok_def)
  have dist: "distinct ?p1" and hd1: "hd ?p1 = start" using ok by (simp_all add: path_ok_def)
  have cur_new: "cur \<notin> set path" using dist by simp
  have "hd ?p1 \<in> set ?p1" by (rule hd_in_set) simp
  then have st_vis: "start \<in> ?v1" using hd1 Suc.prems(2) by simp
  have cur_start: "cur = start \<Longrightarrow> path = []"
    using hd1 cur_new by (cases path) auto
  have v1: "?v1 = set ?p1" using Suc.prems(2) by simp
  have len: "length ?p1 \<le> rows * cols" using path_ok_length[OF ok] .
  then obtain f where f: "fuel = Suc f" using Suc.prems(4) by (cases fuel) simp_all
  have unfold: "search (Suc fuel) g rows cols start cur hor (path, vis)
      = search_from (search fuel g rows cols start) start cur hor
          (candidates g rows cols start cur hor) (?p1, ?v1)"
  proof (cases "cur = start")
    case True
    then have "path = []" by (rule cur_start)
    then show ?thesis
      using nextNodes_rect[OF assms cur_in, of start hor] by (simp add: Let_def)
  next
    case False
    then show ?thesis
      using nextNodes_rect[OF assms cur_in, of start hor] by (simp add: Let_def)
  qed
  have A1: "outcome g rows cols start h0 (search fuel g rows cols start nx (\<not> hor) (?p1, ?v1)) (?p1, ?v1)
              (\<exists>q. completion g rows cols start h0 (path @ [cur, nx]) q)"
    if "path_ok g rows cols start h0 (path @ [cur, nx])" for nx
  proof -
    have 1: "path_ok g rows cols start h0 (?p1 @ [nx])" using that by simp
    have 3: "(\<not> hor) = (h0 = even (length ?p1))" using Suc.prems(3) by auto
    have 4: "rows * cols + 1 \<le> fuel + length ?p1" using Suc.prems(4) by simp
    from Suc.IH[OF 1 v1 3 4] show ?thesis by simp
  qed
  have A2: "search fuel g rows cols start start (\<not> hor) (?p1, ?v1) =
               (if 4 \<le> length ?p1 + 1 then Inr (True, (path @ [cur, start], insert start ?v1))
                else Inr (False, (?p1, ?v1)))"
    unfolding f using search_closing[of ?p1 start ?v1 f g rows cols "\<not> hor"] st_vis by simp
  have bk: "?v1 - {cur} = vis" using cur_new Suc.prems(2) by auto
  have "outcome g rows cols start h0
           (search_from (search fuel g rows cols start) start cur hor
              (candidates g rows cols start cur hor) (?p1, ?v1)) (path, ?v1 - {cur})
           (\<exists>t\<in>set (candidates g rows cols start cur hor). via g rows cols start h0 ?p1 t)"
    by (rule search_from_spec[where rec = "search fuel g rows cols start" and path = path
          and cur = cur and hor = hor and ?vis1.0 = ?v1 and ?h0.0 = h0 and g = g and rows = rows
          and cols = cols and start = start, OF A1 A2 ok v1 Suc.prems(3)]) simp_all
  then have "outcome g rows cols start h0 (search (Suc fuel) g rows cols start cur hor (path, vis)) (path, vis)
           (\<exists>t\<in>set (candidates g rows cols start cur hor). via g rows cols start h0 ?p1 t)"
    unfolding unfold bk .
  then show ?case
    by (rule outcome_weaken) (use completion_via[OF ok Suc.prems(3)] in blast)
qed

text \<open>From a chain of links to the cells along it.\<close>

fun cell_of :: "node \<Rightarrow> node \<Rightarrow> LoopNode" where
  "cell_of (Src r) (Dst c) = (r, c)"
| "cell_of (Dst c) (Src r) = (r, c)"
| "cell_of (Src r) (Src r') = (r, r')"
| "cell_of (Dst c) (Dst c') = (c, c')"

fun chain :: "node \<Rightarrow> node list \<Rightarrow> LoopNode list" where
  "chain x [] = []"
| "chain x (y # ys) = cell_of x y # chain y ys"

fun is_dst :: "node \<Rightarrow> bool" where
  "is_dst (Dst c) = True"
| "is_dst (Src r) = False"

definition linked :: "LoopNode set \<Rightarrow> node \<Rightarrow> node \<Rightarrow> bool" where
  "linked B x y = ((x, y) \<in> links B)"

lemma linked_cases:
  assumes "linked B x y"
  obtains r c where "(r, c) \<in> B" "x = Src r" "y = Dst c" "cell_of x y = (r, c)"
    | r c where "(r, c) \<in> B" "x = Dst c" "y = Src r" "cell_of x y = (r, c)"
  using assms unfolding linked_def by (cases rule: links_cases) auto

lemma linked_flip: "linked B x y \<Longrightarrow> is_dst y = (\<not> is_dst x)"
  by (cases rule: linked_cases) auto

lemma linked_cell: "linked B x y \<Longrightarrow> cell_of x y \<in> B"
  by (cases rule: linked_cases) auto

lemma linked_ends: "linked B x y \<Longrightarrow> {Src (fst (cell_of x y)), Dst (snd (cell_of x y))} = {x, y}"
  by (cases rule: linked_cases) auto

lemma linked_from_Src: "linked B (Src r) w \<Longrightarrow> \<exists>c'. w = Dst c' \<and> cell_of (Src r) w = (r, c')"
  by (cases rule: linked_cases) auto

lemma linked_from_Dst: "linked B (Dst c) w \<Longrightarrow> \<exists>r'. w = Src r' \<and> cell_of (Dst c) w = (r', c)"
  by (cases rule: linked_cases) auto

lemma chain_length [simp]: "length (chain x xs) = length xs"
  by (induction xs arbitrary: x) simp_all

lemma chain_subset: "rtrancl_path (linked B) x xs y \<Longrightarrow> set (chain x xs) \<subseteq> B"
  by (induction rule: rtrancl_path.induct) (simp_all add: linked_cell)

lemma chain_ends:
  "rtrancl_path (linked B) x xs y \<Longrightarrow> e \<in> set (chain x xs)
   \<Longrightarrow> Src (fst e) \<in> set (x # xs) \<and> Dst (snd e) \<in> set (x # xs)"
proof (induction rule: rtrancl_path.induct)
  case (base x)
  then show ?case by simp
next
  case (step x y ys z)
  show ?case
  proof (cases "e = cell_of x y")
    case True
    have "Src (fst e) \<in> {x, y}" "Dst (snd e) \<in> {x, y}"
      using linked_ends[OF step.hyps(1)] True by auto
    then show ?thesis by auto
  next
    case False
    then have "e \<in> set (chain y ys)" using step.prems by simp
    from step.IH[OF this] show ?thesis by simp
  qed
qed

lemma path_parity:
  "rtrancl_path (linked B) x xs y \<Longrightarrow> (is_dst x = is_dst y) = even (length xs)"
proof (induction rule: rtrancl_path.induct)
  case (base x)
  then show ?case by simp
next
  case (step x y ys z)
  then show ?case using linked_flip[OF step.hyps(1)] by auto
qed

lemma chain_distinct:
  "rtrancl_path (linked B) x xs y \<Longrightarrow> distinct (x # xs) \<Longrightarrow> distinct (chain x xs)"
proof (induction rule: rtrancl_path.induct)
  case (base x)
  then show ?case by simp
next
  case (step x y ys z)
  have "cell_of x y \<notin> set (chain y ys)"
  proof
    assume "cell_of x y \<in> set (chain y ys)"
    from chain_ends[OF step.hyps(2) this]
    have "{Src (fst (cell_of x y)), Dst (snd (cell_of x y))} \<subseteq> set (y # ys)" by simp
    then have "x \<in> set (y # ys)" using linked_ends[OF step.hyps(1)] by auto
    then show False using step.prems by simp
  qed
  then show ?case using step by simp
qed

lemma chain_alt:
  "rtrancl_path (linked B) x xs y \<Longrightarrow> distinct (x # xs) \<Longrightarrow> alt (is_dst x) (chain x xs)"
proof (induction rule: rtrancl_path.induct)
  case (base x)
  then show ?case by simp
next
  case (step x y ys z)
  show ?case
  proof (cases ys)
    case Nil
    then show ?thesis by simp
  next
    case (Cons w ws)
    have yw: "linked B y w" using step.hyps(2) Cons by (auto elim: rtrancl_path.cases)
    have xw: "x \<noteq> w" using step.prems Cons by auto
    have mv: "move (is_dst x) (cell_of x y) (cell_of y w)"
      using step.hyps(1)
    proof (cases rule: linked_cases)
      case (1 r c)
      obtain r' where "w = Src r'" "cell_of y w = (r', c)"
        using linked_from_Dst[OF yw[unfolded 1(3)]] 1(3) by auto
      then show ?thesis using 1 xw by (simp add: move_def)
    next
      case (2 r c)
      obtain c' where "w = Dst c'" "cell_of y w = (r, c')"
        using linked_from_Src[OF yw[unfolded 2(3)]] 2(3) by auto
      then show ?thesis using 2 xw by (simp add: move_def)
    qed
    have "alt (is_dst y) (chain y ys)" using step by simp
    then show ?thesis using mv Cons linked_flip[OF step.hyps(1)] by simp
  qed
qed

lemma chain_hd:
  "rtrancl_path (linked B) x xs y \<Longrightarrow> xs \<noteq> []
   \<Longrightarrow> (case x of Src r \<Rightarrow> fst (hd (chain x xs)) = r | Dst c \<Rightarrow> snd (hd (chain x xs)) = c)"
proof (induction rule: rtrancl_path.induct)
  case (base x)
  then show ?case by simp
next
  case (step x y ys z)
  from step.hyps(1) show ?case by (cases rule: linked_cases) simp_all
qed

lemma chain_last:
  "rtrancl_path (linked B) x xs y \<Longrightarrow> xs \<noteq> []
   \<Longrightarrow> (case y of Src r \<Rightarrow> fst (last (chain x xs)) = r | Dst c \<Rightarrow> snd (last (chain x xs)) = c)"
proof (induction rule: rtrancl_path.induct)
  case (base x)
  then show ?case by simp
next
  case (step x y ys z)
  show ?case
  proof (cases ys)
    case Nil
    then have zy: "z = y" using step.hyps(2) by (auto elim: rtrancl_path.cases)
    from step.hyps(1) show ?thesis using Nil zy by (cases rule: linked_cases) simp_all
  next
    case (Cons w ws)
    then have "last (chain x (y # ys)) = last (chain y ys)" by simp
    then show ?thesis using step.IH Cons by (cases z) simp_all
  qed
qed

lemma basics_iff:
  "n \<in> basics g rows cols \<longleftrightarrow> fst n < rows \<and> snd n < cols \<and> isBasin (g ! fst n ! snd n)"
  by (cases n) (simp add: basics_def)

text \<open>In a connected basis, a non-basic cell is closed to a loop by basic cells.\<close>

lemma completion_exists:
  assumes st: "fst start < rows" "snd start < cols" "\<not> isBasin (g ! fst start ! snd start)"
    and conn: "connected_basis (basics g rows cols) rows cols"
  shows "\<exists>q. completion g rows cols start True [start] q \<and> odd (length q)"
proof -
  let ?B = "basics g rows cols"
  let ?x = "Src (fst start)" and ?y = "Dst (snd start)"
  have "?x \<in> nodes rows cols" "?y \<in> nodes rows cols" using st by (simp_all add: nodes_def)
  then have "(?x, ?y) \<in> (links ?B)\<^sup>*" using conn by (simp add: connected_basis_def)
  then have "(linked ?B)\<^sup>*\<^sup>* ?x ?y"
    unfolding linked_def by (simp add: rtranclp_rtrancl_eq)
  then obtain xs0 where "rtrancl_path (linked ?B) ?x xs0 ?y"
    by (auto simp: rtranclp_eq_rtrancl_path)
  then obtain xs where xs: "rtrancl_path (linked ?B) ?x xs ?y" "distinct (?x # xs)"
    by (rule rtrancl_path_distinct)
  define q where "q = chain ?x xs"
  have sub: "set q \<subseteq> ?B" unfolding q_def using xs(1) by (rule chain_subset)
  have dq: "distinct q" unfolding q_def using xs by (rule chain_distinct)
  have aq: "alt False q" unfolding q_def using chain_alt[OF xs] by simp
  have oddq: "odd (length q)" unfolding q_def using path_parity[OF xs(1)] by simp
  then have "length q \<noteq> 0" by (intro notI) simp
  then have ne: "xs \<noteq> []" "q \<noteq> []" unfolding q_def by (cases xs; simp)+
  have hdq: "fst (hd q) = fst start" unfolding q_def using chain_hd[OF xs(1) ne(1)] by simp
  have lastq: "snd (last q) = snd start" unfolding q_def using chain_last[OF xs(1) ne(1)] by simp
  have notB: "start \<notin> ?B" using st(3) by (simp add: basics_iff)
  then have st_q: "start \<notin> set q" using sub by blast
  have "hd q \<in> set q" "last q \<in> set q" using ne(2) by simp_all
  then have hl: "hd q \<noteq> start" "last q \<noteq> start" using st_q by auto
  have m1: "move True start (hd q)"
    using hdq hl(1) by (auto simp: move_def prod_eq_iff)
  have m2: "move False (last q) start"
    using lastq hl(2) by (auto simp: move_def prod_eq_iff)
  have a1: "alt True (start # q)"
    using m1 aq ne(2) by (cases q) simp_all
  have "start # q = (start # butlast q) @ [last q]" using ne(2) by simp
  moreover have "length (start # butlast q) = length q" using ne(2) by (cases q) simp_all
  ultimately have a3: "alt True ((start # butlast q) @ [last q, start])"
    using a1 m2 oddq by (intro alt_snoc) simp_all
  have bl: "butlast q @ [last q] = q" using ne(2) by simp
  have "(start # butlast q) @ [last q, start] = start # (butlast q @ [last q]) @ [start]"
    by simp
  also have "\<dots> = start # q @ [start]" unfolding bl ..
  finally have eq: "(start # butlast q) @ [last q, start] = start # q @ [start]" .
  have a2: "alt True (start # q @ [start])" using a3 unfolding eq .
  have "length q \<noteq> 1"
  proof
    assume "length q = 1"
    then obtain e where "q = [e]" by (cases q) auto
    then have "e = start" using hdq lastq by (simp add: prod_eq_iff)
    then show False using st_q \<open>q = [e]\<close> by simp
  qed
  then have len: "3 \<le> length q" using oddq by (cases "length q") (auto elim: oddE)
  have inb: "\<forall>n\<in>set (start # q). fst n < rows \<and> snd n < cols"
    using sub st(1,2) by (auto simp: basics_iff)
  have bas: "\<forall>n\<in>set q. isBasin (g ! fst n ! snd n)" using sub by (auto simp: basics_iff)
  have "path_ok g rows cols start True (start # q)"
    unfolding path_ok_def using st_q dq a1 inb bas by simp
  then have "closed_ok g rows cols start True (start # q @ [start])"
    unfolding closed_ok_def using a2 len by (simp add: butlast_append)
  then show ?thesis using oddq by (auto simp: completion_def)
qed

text \<open>
  A basic cell on an alternating path is entered through one of its two nodes and left
  through the other: left through its row node when the move that follows is a row move.
\<close>

definition entry :: "bool \<Rightarrow> LoopNode \<Rightarrow> node" where
  "entry h e = (if h then Dst (snd e) else Src (fst e))"

definition exit_node :: "bool \<Rightarrow> LoopNode \<Rightarrow> node" where
  "exit_node h e = (if h then Src (fst e) else Dst (snd e))"

lemma alt_links:
  "alt h (a # l) \<Longrightarrow> set (a # l) \<subseteq> B
   \<Longrightarrow> (entry h a, exit_node (h = even (length l)) (last (a # l))) \<in> (links B)\<^sup>*"
proof (induction l arbitrary: a h)
  case Nil
  have "(entry h a, exit_node h a) \<in> links B"
    using Nil.prems(2) by (cases a) (auto simp: entry_def exit_node_def links_def)
  then show ?case by simp
next
  case (Cons b l)
  have mv: "move h a b" and al: "alt (\<not> h) (b # l)" using Cons.prems(1) by simp_all
  have "(entry h a, exit_node h a) \<in> links B"
    using Cons.prems(2) by (cases a) (auto simp: entry_def exit_node_def links_def)
  moreover have "exit_node h a = entry (\<not> h) b"
    using mv by (simp add: move_def entry_def exit_node_def)
  moreover have "(entry (\<not> h) b, exit_node ((\<not> h) = even (length l)) (last (b # l))) \<in> (links B)\<^sup>*"
    using Cons.IH[OF al] Cons.prems(2) by simp
  moreover have "((\<not> h) = even (length l)) = (h = even (length (b # l)))" by auto
  ultimately show ?case by (simp del: last.simps) (metis converse_rtrancl_into_rtrancl last_ConsR list.distinct(1))
qed

text \<open>
  In an acyclic basis a closed loop has an even number of moves: were the last move a row
  move, the first basic cell of the loop would be joined, end to end, by the other basic
  cells of the loop.
\<close>

lemma alt_last_move_snoc:
  assumes "alt h (q @ [b])" "q \<noteq> []"
  shows "move (h = odd (length q)) (last q) b"
proof -
  obtain p a where q: "q = p @ [a]" using assms(2) by (cases q rule: rev_cases) auto
  then have "alt h (p @ [a, b])" using assms(1) by simp
  then have "move (h = even (length p)) a b" by (rule alt_last_move)
  then show ?thesis using q by simp
qed

lemma closed_loop_parity:
  assumes cl: "closed_ok g rows cols start True p"
    and ac: "acyclic_basis (basics g rows cols)"
  shows "odd (length p)"
proof (rule ccontr)
  assume "\<not> odd (length p)"
  then have ev: "even (length p)" by simp
  let ?B = "basics g rows cols"
  have len: "4 \<le> length p" and lst: "last p = start" and al: "alt True p"
    and po: "path_ok g rows cols start True (butlast p)"
    using cl by (simp_all add: closed_ok_def)
  have pne: "p \<noteq> []" using len by auto
  obtain m where m: "butlast p = start # m"
    using po by (cases "butlast p") (auto simp: path_ok_def)
  have p: "p = start # m @ [start]"
    using append_butlast_last_id[OF pne] m lst by simp
  have lm: "length p = length m + 2" using p by simp
  then have "2 \<le> length m" using len by simp
  then obtain q0 a l where q: "m = q0 # a # l"
    by (cases m; cases "tl m") auto
  have evl: "even (length l)" using ev lm q by simp
  have dist: "distinct (start # q0 # a # l)" using po m q by (simp add: path_ok_def)
  have bas: "\<forall>n\<in>set (q0 # a # l). n \<in> ?B"
    using po m q by (simp add: path_ok_def basics_iff)
  have al': "alt True (start # q0 # (a # l) @ [start])" using al p q by simp
  then have m1: "move True start q0" and m2: "move False q0 a" and al2: "alt True ((a # l) @ [start])"
    by simp_all
  have al3: "alt True (a # l)" using al2 by (rule alt_append_left)
  have sub: "set (a # l) \<subseteq> ?B - {q0}" using bas dist by auto
  have ln: "(entry True a, exit_node (True = even (length l)) (last (a # l))) \<in> (links (?B - {q0}))\<^sup>*"
    using al3 sub by (rule alt_links)
  have "move (True = odd (length (a # l))) (last (a # l)) start"
    using al2 by (rule alt_last_move_snoc) simp
  then have m3: "move True (last (a # l)) start" using evl by simp
  have "exit_node (True = even (length l)) (last (a # l)) = Src (fst q0)"
    using evl m3 m1 by (simp add: exit_node_def move_def)
  moreover have "entry True a = Dst (snd q0)" using m2 by (simp add: entry_def move_def)
  ultimately have "(Dst (snd q0), Src (fst q0)) \<in> (links (?B - {q0}))\<^sup>*" using ln by simp
  then have "(Src (fst q0), Dst (snd q0)) \<in> (links (?B - {q0}))\<^sup>*" by (rule links_rtrancl_sym)
  moreover have "q0 \<in> ?B" using bas by simp
  ultimately show False using ac unfolding acyclic_basis_def by blast
qed

lemma findLoop_tree:
  assumes r: "rect g rows cols" and "0 < rows"
    and inv: "basis_invariant g rows cols"
    and st: "is_cell g start" "\<not> isBasin (cell g start)"
  shows "\<exists>p. findLoop start g = Inr (Some p) \<and> closed_ok g rows cols start True p \<and> odd (length p)"
proof -
  have stb: "fst start < rows" "snd start < cols"
    using st(1) rect_has_cell[OF r] by (simp_all add: is_cell_def)
  have nb: "\<not> isBasin (g ! fst start ! snd start)" using st(2) by (simp add: cell_def)
  have conn: "connected_basis (basics g rows cols) rows cols"
    and ac: "acyclic_basis (basics g rows cols)"
    using inv by (simp_all add: basis_invariant_def)
  have gne: "g \<noteq> []" "length g = rows" using r assms(2) by (auto simp: rect_def)
  have "g ! 0 \<in> set g" using gne(1) by (cases g) simp_all
  then have cols: "length (g ! 0) = cols" using r by (simp add: rect_def list_all_iff)
  have ok: "path_ok g rows cols start True ([] @ [start])"
    using stb by (simp add: path_ok_def)
  obtain q where q: "completion g rows cols start True [start] q"
    using completion_exists[OF stb nb conn] by blast
  have "outcome g rows cols start True
          (search (rows * cols + 3) g rows cols start start True ([], {})) ([], {})
          (\<exists>q. completion g rows cols start True ([] @ [start]) q)"
    by (rule search_spec[OF r ok]) simp_all
  then obtain b st' where res: "search (rows * cols + 3) g rows cols start start True ([], {}) = Inr (b, st')"
    and found: "b \<longrightarrow> closed_ok g rows cols start True (fst st')"
    and compl: "(\<exists>q. completion g rows cols start True ([] @ [start]) q) \<longrightarrow> b"
    unfolding outcome_def by blast
  have b using compl q by auto
  then have cl: "closed_ok g rows cols start True (fst st')" using found by simp
  have "findLoop start g = Inr (Some (fst st'))"
    using gne cols res \<open>b\<close> by (simp add: findLoop_def Let_def)
  then show ?thesis using cl closed_loop_parity[OF cl ac] by blast
qed



section \<open>Claim C6: the cost after a pivot\<close>

text \<open>What a cell adds to the total cost.\<close>

definition weight :: "Cell \<Rightarrow> int" where
  "weight x = (case allocation x of None \<Rightarrow> 0 | Some a \<Rightarrow> a * cost x)"

lemma add_cell_cost_weight: "add_cell_cost x acc = acc + weight x"
  by (simp add: add_cell_cost_def weight_def split: option.splits)

lemma fold_add_cell_cost: "fold add_cell_cost rw acc = acc + sum_list (map weight rw)"
  by (induction rw arbitrary: acc) (simp_all add: add_cell_cost_weight)

lemma fold_rows_cost:
  "fold (\<lambda>rw acc. fold add_cell_cost rw acc) g acc = acc + sum_list (map weight (concat g))"
  by (induction g arbitrary: acc) (simp_all add: fold_add_cell_cost)

lemma calculateTotalCost_sum_list: "calculateTotalCost g = sum_list (map weight (concat g))"
  by (simp add: calculateTotalCost_def fold_rows_cost)

lemma concat_rect:
  assumes "rect g rows cols"
  shows "concat g = map (cell g) (scan rows cols)"
proof -
  have len: "length g = rows" and row: "\<And>r. r < rows \<Longrightarrow> length (g ! r) = cols"
    using assms by (auto simp: rect_def list_all_length)
  have "map (cell g) (scan rows cols) = concat (map (\<lambda>r. map (\<lambda>c. g ! r ! c) [0..<cols]) [0..<rows])"
    by (simp add: scan_def map_concat comp_def cell_def)
  also have "map (\<lambda>r. map (\<lambda>c. g ! r ! c) [0..<cols]) [0..<rows] = map (\<lambda>r. g ! r) [0..<rows]"
  proof (rule map_cong[OF refl])
    fix r assume "r \<in> set [0..<rows]"
    then have "length (g ! r) = cols" using row by simp
    then show "map (\<lambda>c. g ! r ! c) [0..<cols] = g ! r" using map_nth[of "g ! r"] by simp
  qed
  also have "\<dots> = g" using map_nth[of g] len by simp
  finally show ?thesis by simp
qed

lemma calculateTotalCost_sum:
  assumes "rect g rows cols"
  shows "calculateTotalCost g = (\<Sum>n\<in>set (scan rows cols). weight (cell g n))"
proof -
  have "calculateTotalCost g = sum_list (map (\<lambda>n. weight (cell g n)) (scan rows cols))"
    by (simp add: calculateTotalCost_sum_list concat_rect[OF assms] comp_def)
  then show ?thesis using distinct_scan[of rows cols] by (simp add: sum_list_distinct_conv_sum_set)
qed

text \<open>The update of the second loop of \<open>applyPivot\<close> at position \<open>i\<close>.\<close>

definition step_cell :: "int \<Rightarrow> nat \<Rightarrow> Cell \<Rightarrow> Cell" where
  "step_cell t i x =
     (if even i then x\<lparr>allocation := Some (the (allocation x) + t), isBasin := True\<rparr>
      else x\<lparr>allocation := Some (the (allocation x) - t)\<rparr>)"

lemma cell_apply_step:
  "is_cell g n \<Longrightarrow> cell (apply_step t loop i g) n = (if n = loop ! i then step_cell t i (cell g n) else cell g n)"
  by (auto simp: apply_step_def Let_def cell_upd step_cell_def)

lemma cell_fold_apply_at:
  "is_cell g n \<Longrightarrow> distinct idx \<Longrightarrow> i \<in> set idx \<Longrightarrow> loop ! i = n
   \<Longrightarrow> \<forall>j\<in>set idx. loop ! j = n \<longrightarrow> j = i
   \<Longrightarrow> cell (fold (apply_step t loop) idx g) n = step_cell t i (cell g n)"
proof (induction idx arbitrary: g)
  case Nil
  then show ?case by simp
next
  case (Cons j idx)
  have ic: "is_cell (apply_step t loop j g) n" using Cons.prems(1) by (simp add: apply_step_def Let_def)
  show ?case
  proof (cases "j = i")
    case True
    then have "i \<notin> set idx" using Cons.prems(2) by simp
    then have "n \<notin> (\<lambda>k. loop ! k) ` set idx" using Cons.prems(5) by auto
    then have "cell (fold (apply_step t loop) idx (apply_step t loop j g)) n = cell (apply_step t loop j g) n"
      using ic by (intro cell_fold_apply_other)
    then show ?thesis using True Cons.prems(1,4) by (simp add: cell_apply_step)
  next
    case False
    then have "loop ! j \<noteq> n" using Cons.prems(5) by auto
    then have same: "cell (apply_step t loop j g) n = cell g n"
      using Cons.prems(1) by (simp add: cell_apply_step)
    have "i \<in> set idx" using Cons.prems(3) False by simp
    moreover have "distinct idx" using Cons.prems(2) by simp
    moreover have "\<forall>k\<in>set idx. loop ! k = n \<longrightarrow> k = i" using Cons.prems(5) by simp
    ultimately have "cell (fold (apply_step t loop) idx (apply_step t loop j g)) n
        = step_cell t i (cell (apply_step t loop j g) n)"
      using ic Cons.prems(4) by (intro Cons.IH)
    then show ?thesis using same by simp
  qed
qed

text \<open>The cell at position \<open>i\<close> of a loop without repeats, after the second loop.\<close>

lemma cell_moved_at:
  assumes "is_cell g (loop ! i)" "distinct (butlast loop)" "i < length loop - 1"
  shows "cell (moved g loop t) (loop ! i) = step_cell t i (copy_cell (cell g (loop ! i)))"
proof -
  have nth: "butlast loop ! j = loop ! j" if "j < length loop - 1" for j
    using that by (simp add: nth_butlast)
  have uniq: "\<forall>j\<in>set [0..<length loop - 1]. loop ! j = loop ! i \<longrightarrow> j = i"
  proof
    fix j assume "j \<in> set [0..<length loop - 1]"
    then have j: "j < length loop - 1" by simp
    show "loop ! j = loop ! i \<longrightarrow> j = i"
    proof
      assume "loop ! j = loop ! i"
      then have "butlast loop ! j = butlast loop ! i" using nth j assms(3) by simp
      then show "j = i" using assms(2,3) j by (simp add: nth_eq_iff_index_eq)
    qed
  qed
  have "cell (fold (apply_step t loop) [0..<length loop - 1] (map (map copy_cell) g)) (loop ! i)
      = step_cell t i (cell (map (map copy_cell) g) (loop ! i))"
    using assms(1,3) uniq by (intro cell_fold_apply_at) simp_all
  then show ?thesis using assms(1) by (simp add: moved_def cell_map)
qed

text \<open>
  The alternating sum \<open>f a\<^sub>0 - f a\<^sub>1 + f a\<^sub>2 - ...\<close> along a list of cells.
\<close>

fun asum :: "(LoopNode \<Rightarrow> int) \<Rightarrow> LoopNode list \<Rightarrow> int" where
  "asum f [] = 0"
| "asum f (a # l) = f a - asum f l"

lemma signed_sum_asum:
  "(\<And>i. i < length l \<Longrightarrow> d (l ! i) = (if even i = e then t * f (l ! i) else - (t * f (l ! i))))
   \<Longrightarrow> sum_list (map d l) = (if e then t * asum f l else - (t * asum f l))"
proof (induction l arbitrary: e)
  case Nil
  then show ?case by simp
next
  case (Cons a l)
  have d0: "d a = (if e then t * f a else - (t * f a))" using Cons.prems[of 0] by simp
  have "d (l ! i) = (if even i = (\<not> e) then t * f (l ! i) else - (t * f (l ! i)))" if "i < length l" for i
    using Cons.prems[of "Suc i"] that by auto
  then have "sum_list (map d l) = (if \<not> e then t * asum f l else - (t * asum f l))"
    by (rule Cons.IH)
  then show ?case using d0 by (simp add: algebra_simps)
qed

text \<open>The potential of a node.\<close>

fun pot :: "int option list \<Rightarrow> int option list \<Rightarrow> node \<Rightarrow> int" where
  "pot u v (Src r) = the (u ! r)"
| "pot u v (Dst c) = the (v ! c)"

lemma solved_pot:
  "solved g u v e \<Longrightarrow> cost (cell g e) = pot u v (entry h e) + pot u v (exit_node h e)"
  by (auto simp: solved_def cell_def entry_def exit_node_def)

lemma asum_alt:
  "alt h (a # l) \<Longrightarrow> \<forall>e\<in>set (a # l). solved g u v e
   \<Longrightarrow> asum (\<lambda>n. cost (cell g n)) (a # l)
       = pot u v (entry h a)
         + (if even (length l) then 1 else - 1) * pot u v (exit_node (h = even (length l)) (last (a # l)))"
proof (induction l arbitrary: a h)
  case Nil
  then show ?case using solved_pot[of g u v a h] by simp
next
  case (Cons b l)
  have mv: "move h a b" and al: "alt (\<not> h) (b # l)" using Cons.prems(1) by simp_all
  have sa: "cost (cell g a) = pot u v (entry h a) + pot u v (exit_node h a)"
    using Cons.prems(2) by (intro solved_pot) simp
  have ex: "exit_node h a = entry (\<not> h) b"
    using mv by (simp add: move_def entry_def exit_node_def)
  have IH: "asum (\<lambda>n. cost (cell g n)) (b # l)
       = pot u v (entry (\<not> h) b)
         + (if even (length l) then 1 else - 1) * pot u v (exit_node ((\<not> h) = even (length l)) (last (b # l)))"
    using Cons.IH[OF al] Cons.prems(2) by simp
  have hh: "((\<not> h) = even (length l)) = (h = even (length (b # l)))" by auto
  have "asum (\<lambda>n. cost (cell g n)) (a # b # l) = cost (cell g a) - asum (\<lambda>n. cost (cell g n)) (b # l)"
    by simp
  also have "\<dots> = pot u v (entry h a)
      - (if even (length l) then 1 else - 1) * pot u v (exit_node (h = even (length (b # l))) (last (b # l)))"
    unfolding IH sa ex hh by simp
  finally have fin: "asum (\<lambda>n. cost (cell g n)) (a # b # l) = pot u v (entry h a)
      - (if even (length l) then 1 else - 1) * pot u v (exit_node (h = even (length (b # l))) (last (b # l)))" .
  have lst: "last (a # b # l) = last (b # l)" by simp
  show ?case unfolding fin lst by simp
qed

text \<open>
  Around a closed loop whose basic cells satisfy \<open>u[r] + v[c] = cost\<close>, the alternating
  sum of the costs is the opportunity cost of the entering cell.
\<close>

lemma loop_shape:
  assumes "hd p = start" "last p = start" "3 \<le> length p"
  shows "p = start # tl (butlast p) @ [start]" "butlast p = start # tl (butlast p)"
    "length (tl (butlast p)) = length p - 2"
proof -
  have pne: "p \<noteq> []" using assms(3) by auto
  have bne: "butlast p \<noteq> []" using assms(3) by (cases p; cases "tl p") auto
  have "hd (butlast p) = hd p" using bne by (cases p) (auto split: if_splits)
  then show b: "butlast p = start # tl (butlast p)" using bne assms(1) by (cases "butlast p") auto
  have "p = butlast p @ [last p]" using pne by simp
  then have "p = (start # tl (butlast p)) @ [start]" using b assms(2) by simp
  then show "p = start # tl (butlast p) @ [start]" by simp
  show "length (tl (butlast p)) = length p - 2" by simp
qed

lemma loop_asum:
  assumes "hd p = start" "last p = start" "alt h p" "odd (length p)" "5 \<le> length p"
    and "\<forall>n\<in>set (tl (butlast p)). solved g u v n"
  shows "asum (\<lambda>n. cost (cell g n)) (butlast p) = delta_of g u v start"
proof -
  define q where "q = tl (butlast p)"
  have len3: "3 \<le> length p" using assms(5) by simp
  note sh = loop_shape[OF assms(1,2) len3, folded q_def]
  have lq: "odd (length q)" "3 \<le> length q" using sh(3) assms(4,5) by simp_all
  then obtain a l where al: "q = a # l" by (cases q) auto
  have evl: "even (length l)" using lq(1) al by simp
  have "alt h (start # (a # l) @ [start])" using assms(3) sh(1) al by simp
  then have m1: "move h start a" and a2: "alt (\<not> h) ((a # l) @ [start])" by simp_all
  have a3: "alt (\<not> h) (a # l)" using a2 by (rule alt_append_left)
  have "move ((\<not> h) = odd (length (a # l))) (last (a # l)) start"
    using a2 by (rule alt_last_move_snoc) simp
  then have m2: "move (\<not> h) (last (a # l)) start" using evl by simp
  have sv: "\<forall>e\<in>set (a # l). solved g u v e" using assms(6) al by (simp add: q_def)
  have "asum (\<lambda>n. cost (cell g n)) (a # l)
       = pot u v (entry (\<not> h) a) + pot u v (exit_node (\<not> h) (last (a # l)))"
    using asum_alt[OF a3 sv] evl by simp
  moreover have "pot u v (entry (\<not> h) a) + pot u v (exit_node (\<not> h) (last (a # l)))
      = the (u ! fst start) + the (v ! snd start)"
    using m1 m2 by (cases h) (simp_all add: entry_def exit_node_def move_def)
  ultimately have "asum (\<lambda>n. cost (cell g n)) (start # q)
      = cost (cell g start) - (the (u ! fst start) + the (v ! snd start))"
    using al by simp
  then show ?thesis using sh(2) by (simp add: delta_of_def cell_def)
qed

text \<open>What the cell at position \<open>i\<close> of the loop adds to the total cost after the pivot.\<close>

lemma pivot_loop_weight:
  assumes odd: "odd (length loop)" and dist: "distinct (butlast loop)"
    and cells: "\<forall>n\<in>set loop. is_cell g n"
    and minus: "\<forall>i<length loop - 1. odd i \<longrightarrow> isBasin (cell g (loop ! i))"
    and ft: "find_theta g loop = (Fin t, lv)"
    and g': "\<forall>m. is_cell g m \<longrightarrow>
        cell g' m = cleanup_cell (enter_cell (loop ! 0) m (leave_cell lv m (cell (moved g loop t) m)))"
    and i: "i < length loop - 1"
  shows "weight (cell g' (loop ! i))
       = weight (cell g (loop ! i)) + (if even i then t * cost (cell g (loop ! i)) else - (t * cost (cell g (loop ! i))))"
proof -
  let ?n = "loop ! i"
  have ic: "is_cell g ?n" using cells i by simp
  obtain j where j: "lv = Some (loop ! j)" "odd j" "j < length loop"
    "allocation (cell g (loop ! j)) = Some t"
    using find_theta_char[OF ft] by (cases lv) auto
  have "j \<noteq> length loop - 1" using j(2) odd by auto
  then have jl: "j < length loop - 1" using j(3) by simp
  have nth: "butlast loop ! k = loop ! k" if "k < length loop - 1" for k
    using that by (simp add: nth_butlast)
  have inj: "loop ! k = loop ! i \<longleftrightarrow> k = i" if "k < length loop - 1" for k
    using nth_eq_iff_index_eq[OF dist, of k i] that i nth by simp
  have cg: "cell g' ?n = cleanup_cell (enter_cell (loop ! 0) ?n (leave_cell lv ?n
      (step_cell t i (copy_cell (cell g ?n)))))"
    using g'[rule_format, OF ic] cell_moved_at[OF ic dist i] by simp
  show ?thesis
  proof (cases "even i")
    case True
    then have "i \<noteq> j" using j(2) by auto
    then have "lv \<noteq> Some ?n" using j(1) inj[OF jl] by auto
    then show ?thesis
      unfolding cg using True
      by (simp add: cleanup_cell_def enter_cell_def leave_cell_def step_cell_def copy_cell_def
          weight_def algebra_simps split: option.splits)
  next
    case False
    then have i0: "0 < i" by (cases i) auto
    then have "0 < length loop - 1" using i by simp
    then have "loop ! 0 \<noteq> ?n" using inj[of 0] i0 by simp
    then have n0: "?n \<noteq> loop ! 0" by simp
    have bas: "isBasin (cell g ?n)" using minus i False by simp
    show ?thesis
    proof (cases "i = j")
      case True
      then have "lv = Some ?n" "allocation (cell g ?n) = Some t" using j(1,4) by simp_all
      then show ?thesis
        unfolding cg using False n0
        by (simp add: cleanup_cell_def enter_cell_def leave_cell_def step_cell_def copy_cell_def
            weight_def)
    next
      case ij: False
      then have "lv \<noteq> Some ?n" using j(1) inj[OF jl] by auto
      then show ?thesis
        unfolding cg using False n0 bas
        by (simp add: cleanup_cell_def enter_cell_def leave_cell_def step_cell_def copy_cell_def
            weight_def algebra_simps split: option.splits)
    qed
  qed
qed

lemma pivot_cost:
  assumes r: "rect g rows cols"
    and ba: "basics_allocated g" and ne: "nonbasics_empty g"
    and hd: "hd p = start" and lst: "last p = start" and al: "alt h p"
    and odd: "odd (length p)" and len: "5 \<le> length p" and dist: "distinct (butlast p)"
    and st: "is_cell g start"
    and bas: "\<forall>n\<in>set (tl (butlast p)). is_cell g n \<and> isBasin (cell g n)"
    and sol: "\<forall>n\<in>set (tl (butlast p)). solved g u v n"
  shows "\<exists>g' t. applyPivot g p = Inr (g', Fin t)
           \<and> calculateTotalCost g' = calculateTotalCost g + t * delta_of g u v start"
proof -
  define q where "q = tl (butlast p)"
  have len3: "3 \<le> length p" using len by simp
  note sh = loop_shape[OF hd lst len3, folded q_def]
  have pne: "p \<noteq> []" using len by auto
  have setp: "set p = set (butlast p)" using sh(1,2) by (metis append_Cons insert_absorb list.set_intros(1) list.simps(15) rotate1.simps(2) set_rotate1)
  have cells: "\<forall>n\<in>set p. is_cell g n"
    unfolding setp using sh(2) st bas by (metis q_def set_ConsD)
  have nth: "butlast p ! k = p ! k" if "k < length p - 1" for k
    using that by (simp add: nth_butlast)
  have tlq: "p ! k \<in> set q" if "0 < k" "k < length p - 1" for k
  proof -
    have "butlast p ! k = q ! (k - 1)" using sh(2) that by (metis nth_Cons_pos)
    moreover have "k - 1 < length q" using sh(3) that by simp
    ultimately show ?thesis using nth[OF that(2)] by (metis nth_mem)
  qed
  have minus: "\<forall>i<length p - 1. odd i \<longrightarrow> isBasin (cell g (p ! i))"
  proof (intro allI impI)
    fix i assume i: "i < length p - 1" "odd i"
    then have "0 < i" by (cases i) auto
    then show "isBasin (cell g (p ! i))" using tlq i(1) bas by (simp add: q_def)
  qed
  have one: "1 < length p - 1" using len by simp
  have "isBasin (cell g (p ! 1))" using minus one by simp
  moreover have "is_cell g (p ! 1)" using cells one by simp
  ultimately have a1: "allocation (cell g (p ! 1)) \<noteq> None"
    using basics_allocated_cell[OF ba] by blast
  obtain th lv where ft: "find_theta g p = (th, lv)" by (cases "find_theta g p")
  have "lv \<noteq> None"
  proof
    assume "lv = None"
    then have "allocation (cell g (p ! 1)) = None"
      using find_theta_char[OF ft] one by auto
    then show False using a1 by simp
  qed
  then obtain l where lv: "lv = Some l" by blast
  then obtain t j where tj: "th = Fin t" "j < length p" "l = p ! j"
    using find_theta_char[OF ft] by auto
  have lin: "l \<in> set p" using tj(2,3) by simp
  have tc: "\<forall>n\<in>set (touched p). is_cell g n" using cells touched_subset by blast
  from applyPivot_finite[OF pne tc ft[unfolded tj(1)]]
  obtain g' where g': "applyPivot g p = Inr (g', Fin t)" "length g' = length g"
    "\<forall>r<length g. length (g' ! r) = length (g ! r)"
    "\<forall>m. is_cell g m \<longrightarrow>
        cell g' m = cleanup_cell (enter_cell (p ! 0) m (leave_cell lv m (cell (moved g p t) m)))"
    by (elim exE conjE)
  have r': "rect g' rows cols"
    using r g'(2,3) by (simp add: rect_def list_all_length)
  let ?S = "set (scan rows cols)"
  let ?f = "\<lambda>n. cost (cell g n)"
  define d where "d = (\<lambda>n. weight (cell g' n) - weight (cell g n))"
  have inS: "n \<in> ?S \<longleftrightarrow> is_cell g n" for n
    using rect_has_cell[OF r, of "fst n" "snd n"] by (cases n) (simp add: is_cell_def)
  have sub: "set (butlast p) \<subseteq> ?S" using cells setp inS by blast
  have out: "d n = 0" if "n \<in> ?S - set (butlast p)" for n
  proof -
    have ic: "is_cell g n" and np: "n \<notin> set p" using that inS setp by simp_all
    have "n \<notin> (\<lambda>i. p ! i) ` set [0..<length p - 1]" using np by auto
    then have "cell (moved g p t) n = copy_cell (cell g n)"
      using ic by (simp add: moved_def cell_fold_apply_other cell_map)
    moreover have "n \<noteq> p ! 0" "lv \<noteq> Some n" using np pne lin lv by auto
    ultimately have c: "cell g' n = cleanup_cell (copy_cell (cell g n))"
      using g'(4)[rule_format, OF ic] by (simp add: enter_cell_def leave_cell_def)
    show ?thesis
    proof (cases "isBasin (cell g n)")
      case True
      then show ?thesis unfolding d_def c
        by (simp add: cleanup_cell_def copy_cell_def weight_def split: option.splits)
    next
      case False
      then have "allocation (cell g n) = None" using nonbasics_empty_cell[OF ne ic] by simp
      then show ?thesis unfolding d_def c using False
        by (simp add: cleanup_cell_def copy_cell_def weight_def)
    qed
  qed
  have on: "d (butlast p ! i) = (if even i = True then t * ?f (butlast p ! i) else - (t * ?f (butlast p ! i)))"
    if "i < length (butlast p)" for i
  proof -
    have i: "i < length p - 1" using that by simp
    show ?thesis
      unfolding nth[OF i] d_def
      using pivot_loop_weight[OF odd dist cells minus ft[unfolded tj(1)] g'(4) i] by simp
  qed
  have "sum_list (map d (butlast p)) = (if True then t * asum ?f (butlast p) else - (t * asum ?f (butlast p)))"
    using on by (rule signed_sum_asum)
  then have sl: "sum_list (map d (butlast p)) = t * delta_of g u v start"
    using loop_asum[OF hd lst al odd len sol] by simp
  have "sum d ?S = sum d (set (butlast p))"
    using sub out by (intro sum.mono_neutral_right) auto
  also have "\<dots> = sum_list (map d (butlast p))"
    using dist by (simp add: sum_list_distinct_conv_sum_set)
  finally have "sum d ?S = t * delta_of g u v start" using sl by simp
  moreover have "sum d ?S = calculateTotalCost g' - calculateTotalCost g"
    unfolding d_def calculateTotalCost_sum[OF r] calculateTotalCost_sum[OF r']
    by (simp add: sum_subtractf)
  ultimately have "calculateTotalCost g' = calculateTotalCost g + t * delta_of g u v start"
    by simp
  then show ?thesis using g'(1) by blast
qed



section \<open>Claim C2: the initial solution is feasible\<close>

text \<open>The quantity shipped on a cell: an empty allocation ships nothing.\<close>

definition alloc :: "Grid \<Rightarrow> LoopNode \<Rightarrow> int" where
  "alloc g n = (case allocation (cell g n) of None \<Rightarrow> 0 | Some a \<Rightarrow> a)"

definition row_total :: "Grid \<Rightarrow> nat \<Rightarrow> nat \<Rightarrow> int" where
  "row_total g cols r = (\<Sum>c<cols. alloc g (r, c))"

definition col_total :: "Grid \<Rightarrow> nat \<Rightarrow> nat \<Rightarrow> int" where
  "col_total g rows c = (\<Sum>r<rows. alloc g (r, c))"

text \<open>The number of rows (or columns) with something left.\<close>

definition positives :: "int list \<Rightarrow> nat" where
  "positives xs = length (filter (\<lambda>x. 0 < x) xs)"

lemma positives_update_le:
  "i < length xs \<Longrightarrow> 0 < xs ! i \<Longrightarrow> positives (xs[i := y]) \<le> positives xs"
proof (induction xs arbitrary: i)
  case Nil
  then show ?case by simp
next
  case (Cons a xs)
  then show ?case by (cases i) (auto simp: positives_def)
qed

lemma positives_update_zero:
  "i < length xs \<Longrightarrow> 0 < xs ! i \<Longrightarrow> Suc (positives (xs[i := 0])) = positives xs"
proof (induction xs arbitrary: i)
  case Nil
  then show ?case by simp
next
  case (Cons a xs)
  then show ?case by (cases i) (auto simp: positives_def)
qed

lemma positives_pos: "i < length xs \<Longrightarrow> 0 < xs ! i \<Longrightarrow> 0 < positives xs"
  using positives_update_zero[of i xs] by simp

lemma positives_le_length: "positives xs \<le> length xs"
  by (simp add: positives_def)

lemma sum_list_update_int:
  fixes xs :: "int list"
  shows "i < length xs \<Longrightarrow> sum_list (xs[i := y]) = sum_list xs - xs ! i + y"
proof (induction xs arbitrary: i)
  case Nil
  then show ?case by simp
next
  case (Cons a xs)
  then show ?case by (cases i) simp_all
qed

text \<open>The effect of writing an allocation into a cell.\<close>

lemma alloc_upd:
  "is_cell g n \<Longrightarrow> alloc (upd g r c (\<lambda>x. x\<lparr>allocation := Some a, isBasin := b\<rparr>)) n
     = (if n = (r, c) then a else alloc g n)"
  by (simp add: alloc_def cell_upd)

lemma sum_update_one:
  fixes f :: "nat \<Rightarrow> int"
  assumes "c < cols" "f c = 0"
  shows "(\<Sum>j<cols. if j = c then a else f j) = (\<Sum>j<cols. f j) + a"
proof -
  have "(\<Sum>j<cols. if j = c then a else f j) = (\<Sum>j<cols. f j + (if j = c then a else 0))"
    using assms(2) by (intro sum.cong) auto
  also have "\<dots> = (\<Sum>j<cols. f j) + (\<Sum>j<cols. if j = c then a else 0)"
    by (simp add: sum.distrib)
  also have "(\<Sum>j<cols. if j = c then a else 0) = a"
    using assms(1) by (simp add: sum.delta)
  finally show ?thesis .
qed

text \<open>
  The invariant of the first loop of \<open>solveLeastCost\<close>, for the supplies \<open>S\<close> and demands
  \<open>D\<close> of the problem, after the cells \<open>Done\<close>; the state is
  \<open>(grid, s, d, basicCellsCount)\<close>.
\<close>

definition lc_inv ::
  "nat \<Rightarrow> nat \<Rightarrow> int list \<Rightarrow> int list \<Rightarrow> LoopNode set \<Rightarrow> Grid \<times> int list \<times> int list \<times> nat \<Rightarrow> bool" where
  "lc_inv rows cols S D Done st =
     (case st of (g, s, d, n) \<Rightarrow>
        rect g rows cols \<and> length s = rows \<and> length d = cols
      \<and> (\<forall>x\<in>set s. 0 \<le> x) \<and> (\<forall>x\<in>set d. 0 \<le> x)
      \<and> sum_list s = sum_list d
      \<and> (\<forall>r<rows. row_total g cols r + s ! r = S ! r)
      \<and> (\<forall>c<cols. col_total g rows c + d ! c = D ! c)
      \<and> basics g rows cols \<subseteq> Done
      \<and> (\<forall>r<rows. \<forall>c<cols. isBasin (g ! r ! c) = (allocation (g ! r ! c) \<noteq> None))
      \<and> n = card (basics g rows cols)
      \<and> n + (positives s + positives d - 1) \<le> rows + cols - 1
      \<and> (\<forall>rc\<in>Done. \<not> (0 < s ! fst rc \<and> 0 < d ! snd rc)))"

lemma lc_invI:
  assumes "rect g rows cols" "length s = rows" "length d = cols"
    "\<forall>x\<in>set s. 0 \<le> x" "\<forall>x\<in>set d. 0 \<le> x" "sum_list s = sum_list d"
    "\<forall>r<rows. row_total g cols r + s ! r = S ! r"
    "\<forall>c<cols. col_total g rows c + d ! c = D ! c"
    "basics g rows cols \<subseteq> Done"
    "\<forall>r<rows. \<forall>c<cols. isBasin (g ! r ! c) = (allocation (g ! r ! c) \<noteq> None)"
    "n = card (basics g rows cols)"
    "n + (positives s + positives d - 1) \<le> rows + cols - 1"
    "\<forall>rc\<in>Done. \<not> (0 < s ! fst rc \<and> 0 < d ! snd rc)"
  shows "lc_inv rows cols S D Done (g, s, d, n)"
  using assms unfolding lc_inv_def by simp

lemma lc_invD:
  assumes "lc_inv rows cols S D Done (g, s, d, n)"
  shows "rect g rows cols" "length s = rows" "length d = cols"
    "\<forall>x\<in>set s. 0 \<le> x" "\<forall>x\<in>set d. 0 \<le> x" "sum_list s = sum_list d"
    "\<forall>r<rows. row_total g cols r + s ! r = S ! r"
    "\<forall>c<cols. col_total g rows c + d ! c = D ! c"
    "basics g rows cols \<subseteq> Done"
    "\<forall>r<rows. \<forall>c<cols. isBasin (g ! r ! c) = (allocation (g ! r ! c) \<noteq> None)"
    "n = card (basics g rows cols)"
    "n + (positives s + positives d - 1) \<le> rows + cols - 1"
    "\<forall>rc\<in>Done. \<not> (0 < s ! fst rc \<and> 0 < d ! snd rc)"
  using assms unfolding lc_inv_def by simp_all

lemma allocate_step_skip:
  "\<not> (gt0 s r \<and> gt0 d c) \<Longrightarrow> allocate_step (r, c, k) (g, s, d, n) = (g, s, d, n)"
  by (auto simp: allocate_step_def)

lemma allocate_step_take:
  "gt0 s r \<Longrightarrow> gt0 d c \<Longrightarrow> allocate_step (r, c, k) (g, s, d, n) =
     (upd g r c (\<lambda>x. x\<lparr>allocation := Some (min (s ! r) (d ! c)), isBasin := True\<rparr>),
      s[r := s ! r - min (s ! r) (d ! c)], d[c := d ! c - min (s ! r) (d ! c)], Suc n)"
  by (simp add: allocate_step_def Let_def)

lemma nonneg_update:
  fixes xs :: "int list"
  shows "\<forall>x\<in>set xs. 0 \<le> x \<Longrightarrow> 0 \<le> y \<Longrightarrow> \<forall>x\<in>set (xs[i := y]). 0 \<le> x"
  using set_update_subset_insert[of xs i y] by auto

lemma lc_inv_step:
  assumes inv: "lc_inv rows cols S D Done (g, s, d, n)"
    and rc: "r < rows" "c < cols" "(r, c) \<notin> Done"
  shows "lc_inv rows cols S D (insert (r, c) Done) (allocate_step (r, c, k) (g, s, d, n))"
proof (cases "gt0 s r \<and> gt0 d c")
  case False
  note I = lc_invD[OF inv]
  have "\<not> (0 < s ! r \<and> 0 < d ! c)" using False rc I(2,3) by (simp add: gt0_def)
  then have "\<forall>x\<in>insert (r, c) Done. \<not> (0 < s ! fst x \<and> 0 < d ! snd x)" using I(13) by simp
  moreover have "basics g rows cols \<subseteq> insert (r, c) Done" using I(9) by blast
  ultimately have "lc_inv rows cols S D (insert (r, c) Done) (g, s, d, n)"
    using I by (intro lc_invI)
  then show ?thesis using allocate_step_skip[OF False] by simp
next
  case True
  note I = lc_invD[OF inv]
  define a where "a = min (s ! r) (d ! c)"
  define g' where "g' = upd g r c (\<lambda>x. x\<lparr>allocation := Some a, isBasin := True\<rparr>)"
  define s' where "s' = s[r := s ! r - a]"
  define d' where "d' = d[c := d ! c - a]"
  have step: "allocate_step (r, c, k) (g, s, d, n) = (g', s', d', Suc n)"
    using True by (simp add: allocate_step_take g'_def s'_def d'_def a_def)
  have pos: "0 < s ! r" "0 < d ! c" using True by (simp_all add: gt0_def)
  have rl: "r < length s" "c < length d" using rc I(2,3) by simp_all
  have a: "0 < a" "a \<le> s ! r" "a \<le> d ! c" using pos by (simp_all add: a_def)
  have hc: "has_cell g r' c' = (r' < rows \<and> c' < cols)" for r' c'
    using rect_has_cell[OF I(1)] by simp
  have nb: "\<not> isBasin (g ! r ! c)"
  proof
    assume "isBasin (g ! r ! c)"
    then have "(r, c) \<in> basics g rows cols" using rc by (simp add: basics_def)
    then show False using I(9) rc(3) by blast
  qed
  then have empty: "allocation (g ! r ! c) = None" using I(10) rc by simp
  have cell': "g' ! r' ! c' = (if r' = r \<and> c' = c then (g ! r ! c)\<lparr>allocation := Some a, isBasin := True\<rparr> else g ! r' ! c')"
    if "r' < rows" "c' < cols" for r' c'
    unfolding g'_def using that hc by (simp add: upd_nth)
  have al': "alloc g' (r', c') = (if r' = r \<and> c' = c then a else alloc g (r', c'))"
    if "r' < rows" "c' < cols" for r' c'
    using cell'[OF that] by (simp add: alloc_def cell_def)
  have al0: "alloc g (r, c) = 0" using empty by (simp add: alloc_def cell_def)
  have 1: "rect g' rows cols" using I(1) by (simp add: g'_def)
  have 2: "length s' = rows" "length d' = cols" using I(2,3) by (simp_all add: s'_def d'_def)
  have "0 \<le> s ! r - a" "0 \<le> d ! c - a" using a by simp_all
  then have 4: "\<forall>x\<in>set s'. 0 \<le> x" "\<forall>x\<in>set d'. 0 \<le> x"
    unfolding s'_def d'_def using I(4,5) by (blast intro: nonneg_update[rule_format])+
  have 6: "sum_list s' = sum_list d'"
    unfolding s'_def d'_def using rl I(6) by (simp add: sum_list_update_int)
  have 7: "\<forall>r'<rows. row_total g' cols r' + s' ! r' = S ! r'"
  proof (intro allI impI)
    fix r' assume r': "r' < rows"
    show "row_total g' cols r' + s' ! r' = S ! r'"
    proof (cases "r' = r")
      case True
      have "row_total g' cols r = (\<Sum>j<cols. if j = c then a else alloc g (r, j))"
        unfolding row_total_def using al'[OF rc(1)] by (intro sum.cong) simp_all
      also have "\<dots> = row_total g cols r + a"
        unfolding row_total_def using rc(2) al0 by (rule sum_update_one)
      finally have "row_total g' cols r = row_total g cols r + a" .
      moreover have "s' ! r = s ! r - a" using rl by (simp add: s'_def)
      ultimately show ?thesis using I(7) rc(1) True by simp
    next
      case False
      have "row_total g' cols r' = row_total g cols r'"
        unfolding row_total_def using al'[OF r'] False by (intro sum.cong) simp_all
      moreover have "s' ! r' = s ! r'" using False by (simp add: s'_def)
      ultimately show ?thesis using I(7) r' by simp
    qed
  qed
  have 8: "\<forall>c'<cols. col_total g' rows c' + d' ! c' = D ! c'"
  proof (intro allI impI)
    fix c' assume c': "c' < cols"
    show "col_total g' rows c' + d' ! c' = D ! c'"
    proof (cases "c' = c")
      case True
      have "col_total g' rows c = (\<Sum>j<rows. if j = r then a else alloc g (j, c))"
        unfolding col_total_def using al'[OF _ rc(2)] by (intro sum.cong) simp_all
      also have "\<dots> = col_total g rows c + a"
        unfolding col_total_def using rc(1) al0 by (rule sum_update_one)
      finally have "col_total g' rows c = col_total g rows c + a" .
      moreover have "d' ! c = d ! c - a" using rl by (simp add: d'_def)
      ultimately show ?thesis using I(8) rc(2) True by simp
    next
      case False
      have "col_total g' rows c' = col_total g rows c'"
        unfolding col_total_def using al'[OF _ c'] False by (intro sum.cong) simp_all
      moreover have "d' ! c' = d ! c'" using False by (simp add: d'_def)
      ultimately show ?thesis using I(8) c' by simp
    qed
  qed
  have bs: "basics g' rows cols = insert (r, c) (basics g rows cols)"
    using cell' rc by (auto simp: basics_def)
  have 9: "basics g' rows cols \<subseteq> insert (r, c) Done" using bs I(9) by blast
  have 10: "\<forall>r'<rows. \<forall>c'<cols. isBasin (g' ! r' ! c') = (allocation (g' ! r' ! c') \<noteq> None)"
    using cell' I(10) by simp
  have "(r, c) \<notin> basics g rows cols" using nb by (simp add: basics_def)
  then have 11: "Suc n = card (basics g' rows cols)" using bs I(11) by simp
  have ps: "0 < positives s" "0 < positives d"
    using positives_pos[OF rl(1) pos(1)] positives_pos[OF rl(2) pos(2)] by simp_all
  have le: "positives s' \<le> positives s" "positives d' \<le> positives d"
    unfolding s'_def d'_def using positives_update_le rl pos by simp_all
  have "Suc (positives s' + positives d') \<le> positives s + positives d"
  proof (cases "s ! r \<le> d ! c")
    case True
    then have "s' = s[r := 0]" by (simp add: s'_def a_def)
    then have "Suc (positives s') = positives s" using positives_update_zero[OF rl(1) pos(1)] by simp
    then show ?thesis using le(2) by simp
  next
    case False
    then have "d' = d[c := 0]" by (simp add: d'_def a_def)
    then have "Suc (positives d') = positives d" using positives_update_zero[OF rl(2) pos(2)] by simp
    then show ?thesis using le(1) by simp
  qed
  then have 12: "Suc n + (positives s' + positives d' - 1) \<le> rows + cols - 1"
    using I(12) ps by simp
  have mono: "s' ! i \<le> s ! i" "d' ! j \<le> d ! j" for i j
  proof -
    show "s' ! i \<le> s ! i" using a(1) rl(1) by (cases "i = r") (simp_all add: s'_def)
    show "d' ! j \<le> d ! j" using a(1) rl(2) by (cases "j = c") (simp_all add: d'_def)
  qed
  have new: "\<not> (0 < s' ! r \<and> 0 < d' ! c)"
    using rl by (simp add: s'_def d'_def a_def min_def)
  have 13: "\<forall>x\<in>insert (r, c) Done. \<not> (0 < s' ! fst x \<and> 0 < d' ! snd x)"
  proof
    fix x assume "x \<in> insert (r, c) Done"
    then consider "x = (r, c)" | "x \<in> Done" by auto
    then show "\<not> (0 < s' ! fst x \<and> 0 < d' ! snd x)"
    proof cases
      case 1
      then show ?thesis using new by simp
    next
      case 2
      then have "\<not> (0 < s ! fst x \<and> 0 < d ! snd x)" using I(13) by blast
      then show ?thesis using mono(1)[of "fst x"] mono(2)[of "snd x"] by linarith
    qed
  qed
  have "lc_inv rows cols S D (insert (r, c) Done) (g', s', d', Suc n)"
    using 1 2 4 6 7 8 9 10 11 12 13 by (intro lc_invI)
  then show ?thesis using step by simp
qed

text \<open>The cell of an entry \<open>{r, c, cost}\<close> of \<open>cellsList\<close>.\<close>

definition cell_key :: "nat \<times> nat \<times> int \<Rightarrow> LoopNode" where
  "cell_key x = (fst x, fst (snd x))"

lemma lc_inv_fold:
  "distinct (map cell_key cells) \<Longrightarrow> \<forall>x\<in>set cells. fst x < rows \<and> fst (snd x) < cols
   \<Longrightarrow> set (map cell_key cells) \<inter> Done = {} \<Longrightarrow> lc_inv rows cols S D Done st
   \<Longrightarrow> lc_inv rows cols S D (Done \<union> set (map cell_key cells)) (fold allocate_step cells st)"
proof (induction cells arbitrary: Done st)
  case Nil
  then show ?case by simp
next
  case (Cons x cells)
  obtain r c k where x: "x = (r, c, k)" by (cases x)
  obtain g s d n where st: "st = (g, s, d, n)" by (cases st)
  have rc: "r < rows" "c < cols" using Cons.prems(2) x by simp_all
  have new: "(r, c) \<notin> Done" using Cons.prems(3) x by (simp add: cell_key_def)
  have inv1: "lc_inv rows cols S D (insert (r, c) Done) (allocate_step x st)"
    unfolding x st using Cons.prems(4)[unfolded st] rc new by (rule lc_inv_step)
  have d: "distinct (map cell_key cells)" using Cons.prems(1) by simp
  have b: "\<forall>y\<in>set cells. fst y < rows \<and> fst (snd y) < cols" using Cons.prems(2) by simp
  have "(r, c) \<notin> set (map cell_key cells)" using Cons.prems(1) x by (simp add: cell_key_def)
  then have dj: "set (map cell_key cells) \<inter> insert (r, c) Done = {}"
    using Cons.prems(3) by auto
  have "lc_inv rows cols S D (insert (r, c) Done \<union> set (map cell_key cells))
          (fold allocate_step cells (allocate_step x st))"
    using d b dj inv1 by (rule Cons.IH)
  moreover have "insert (r, c) Done \<union> set (map cell_key cells) = Done \<union> set (map cell_key (x # cells))"
    using x by (auto simp: cell_key_def)
  ultimately show ?case by simp
qed

text \<open>\<open>cellsList\<close> holds every cell of the grid once.\<close>

lemma cell_key_cells_of: "map cell_key (cells_of cs rows cols) = scan rows cols"
  by (simp add: cells_of_def cell_key_def comp_def case_prod_beta)

lemma sorted_cells_keys:
  "distinct (map cell_key (sorted_cells cs rows cols))"
  "set (map cell_key (sorted_cells cs rows cols)) = set (scan rows cols)"
  "length (sorted_cells cs rows cols) = rows * cols"
proof -
  have "distinct (map cell_key (cells_of cs rows cols))" by (simp add: cell_key_cells_of)
  then have d: "distinct (cells_of cs rows cols)" and i: "inj_on cell_key (set (cells_of cs rows cols))"
    by (simp_all add: distinct_map)
  show "distinct (map cell_key (sorted_cells cs rows cols))"
    using d i by (simp add: sorted_cells_def distinct_map)
  have "set (map cell_key (sorted_cells cs rows cols)) = set (map cell_key (cells_of cs rows cols))"
    by (simp add: sorted_cells_def)
  then show "set (map cell_key (sorted_cells cs rows cols)) = set (scan rows cols)"
    unfolding cell_key_cells_of .
  have "length (sorted_cells cs rows cols) = length (scan rows cols)"
    by (simp add: sorted_cells_def cells_of_def)
  then show "length (sorted_cells cs rows cols) = rows * cols"
    by (simp add: scan_product)
qed

lemma sorted_cells_bounds:
  "\<forall>x\<in>set (sorted_cells cs rows cols). fst x < rows \<and> fst (snd x) < cols"
proof
  fix x assume "x \<in> set (sorted_cells cs rows cols)"
  then have "cell_key x \<in> set (map cell_key (sorted_cells cs rows cols))" by simp
  then have "cell_key x \<in> set (scan rows cols)" unfolding sorted_cells_keys(2) .
  then show "fst x < rows \<and> fst (snd x) < cols" by (simp add: cell_key_def)
qed

text \<open>When every cell has been looked at, nothing is left of a balanced problem.\<close>

lemma nonneg_sum_zero:
  fixes xs :: "int list"
  assumes "\<forall>x\<in>set xs. 0 \<le> x" "sum_list xs = 0" "i < length xs"
  shows "xs ! i = 0"
proof -
  have "\<forall>x\<in>set xs. x = 0" using assms(1,2) by (simp add: sum_list_nonneg_eq_0_iff)
  then show ?thesis using assms(3) by simp
qed

lemma all_le_zero_sum:
  fixes xs :: "int list"
  assumes "\<forall>x\<in>set xs. 0 \<le> x" "\<forall>i<length xs. \<not> 0 < xs ! i"
  shows "sum_list xs = 0"
proof -
  have "\<forall>x\<in>set xs. x = 0"
  proof
    fix x assume "x \<in> set xs"
    then obtain i where i: "i < length xs" "xs ! i = x" by (auto simp: in_set_conv_nth)
    have "0 \<le> x" using assms(1) \<open>x \<in> set xs\<close> by simp
    moreover have "\<not> 0 < x" using assms(2)[rule_format, OF i(1)] i(2) by simp
    ultimately show "x = 0" by simp
  qed
  then show ?thesis by (induction xs) simp_all
qed

lemma lc_inv_exhausted:
  assumes inv: "lc_inv rows cols S D Done (g, s, d, n)" and all: "set (scan rows cols) \<subseteq> Done"
  shows "\<forall>r<rows. s ! r = 0" "\<forall>c<cols. d ! c = 0"
proof -
  note I = lc_invD[OF inv]
  have excl: "\<not> (0 < s ! r \<and> 0 < d ! c)" if "r < rows" "c < cols" for r c
  proof -
    have "(r, c) \<in> Done" using all that by auto
    then show ?thesis using I(13) by fastforce
  qed
  have "sum_list s = 0"
  proof (cases "\<exists>r<rows. 0 < s ! r")
    case True
    then obtain r where "r < rows" "0 < s ! r" by blast
    then have "\<forall>c<length d. \<not> 0 < d ! c" using excl I(3) by auto
    then have "sum_list d = 0" using I(5) by (intro all_le_zero_sum)
    then show ?thesis using I(6) by simp
  next
    case False
    then have "\<forall>r<length s. \<not> 0 < s ! r" using I(2) by simp
    then show ?thesis using I(4) by (intro all_le_zero_sum)
  qed
  then have z: "sum_list s = 0" "sum_list d = 0" using I(6) by simp_all
  show "\<forall>r<rows. s ! r = 0" using nonneg_sum_zero[OF I(4) z(1)] I(2) by simp
  show "\<forall>c<cols. d ! c = 0" using nonneg_sum_zero[OF I(5) z(2)] I(3) by simp
qed

text \<open>The second loop: it makes \<open>needed\<close> further cells basic, with allocation 0.\<close>

definition wellformed :: "Grid \<Rightarrow> nat \<Rightarrow> nat \<Rightarrow> bool" where
  "wellformed g rows cols =
     (\<forall>r<rows. \<forall>c<cols. isBasin (g ! r ! c) = (allocation (g ! r ! c) \<noteq> None))"

definition free_cells :: "Grid \<Rightarrow> (nat \<times> nat \<times> int) list \<Rightarrow> nat" where
  "free_cells g cells = length (filter (\<lambda>x. \<not> isBasin (cell g (cell_key x))) cells)"

lemma free_cells_upd:
  assumes "rect g rows cols" "\<forall>x\<in>set cells. fst x < rows \<and> fst (snd x) < cols"
    "(r, c) \<notin> set (map cell_key cells)"
  shows "free_cells (upd g r c f) cells = free_cells g cells"
proof -
  have "filter (\<lambda>x. \<not> isBasin (cell (upd g r c f) (cell_key x))) cells
      = filter (\<lambda>x. \<not> isBasin (cell g (cell_key x))) cells"
  proof (rule filter_cong[OF refl])
    fix x assume x: "x \<in> set cells"
    then have "cell_key x \<in> set (map cell_key cells)" by simp
    then have "cell_key x \<noteq> (r, c)" using assms(3) by metis
    moreover have "is_cell g (cell_key x)"
      using assms(2) x rect_has_cell[OF assms(1)] by (simp add: is_cell_def cell_key_def)
    ultimately show "(\<not> isBasin (cell (upd g r c f) (cell_key x))) = (\<not> isBasin (cell g (cell_key x)))"
      by (simp add: cell_upd)
  qed
  then show ?thesis by (simp add: free_cells_def)
qed

lemma fill_zero_spec:
  "rect g rows cols \<Longrightarrow> distinct (map cell_key cells)
   \<Longrightarrow> \<forall>x\<in>set cells. fst x < rows \<and> fst (snd x) < cols
   \<Longrightarrow> 0 \<le> needed \<Longrightarrow> nat needed \<le> free_cells g cells \<Longrightarrow> wellformed g rows cols
   \<Longrightarrow> rect (fill_zero cells g needed) rows cols
     \<and> card (basics (fill_zero cells g needed) rows cols) = card (basics g rows cols) + nat needed
     \<and> (\<forall>r<rows. \<forall>c<cols. alloc (fill_zero cells g needed) (r, c) = alloc g (r, c))
     \<and> wellformed (fill_zero cells g needed) rows cols"
proof (induction cells arbitrary: g needed)
  case Nil
  then show ?case by (simp add: free_cells_def)
next
  case (Cons x cells)
  obtain r c k where x: "x = (r, c, k)" by (cases x)
  have rc: "r < rows" "c < cols" using Cons.prems(3) x by simp_all
  have kx: "cell_key x = (r, c)" by (simp add: x cell_key_def)
  have d: "distinct (map cell_key cells)" and notin: "(r, c) \<notin> set (map cell_key cells)"
    using Cons.prems(2) kx by simp_all
  have b: "\<forall>y\<in>set cells. fst y < rows \<and> fst (snd y) < cols" using Cons.prems(3) by simp
  have hc: "has_cell g r' c' = (r' < rows \<and> c' < cols)" for r' c'
    using rect_has_cell[OF Cons.prems(1)] by simp
  show ?case
  proof (cases "needed \<le> 0")
    case True
    then have "fill_zero (x # cells) g needed = g" "nat needed = 0" using x by simp_all
    then show ?thesis using Cons.prems(1,6) by simp
  next
    case pos: False
    show ?thesis
    proof (cases "isBasin (g ! r ! c)")
      case True
      then have fz: "fill_zero (x # cells) g needed = fill_zero cells g needed"
        using pos x by simp
      have "free_cells g (x # cells) = free_cells g cells"
        using True x by (simp add: free_cells_def cell_key_def cell_def)
      then have "nat needed \<le> free_cells g cells" using Cons.prems(5) by simp
      from Cons.IH[OF Cons.prems(1) d b Cons.prems(4) this Cons.prems(6)]
      show ?thesis unfolding fz .
    next
      case False
      define g1 where "g1 = upd g r c (\<lambda>x. x\<lparr>isBasin := True, allocation := Some 0\<rparr>)"
      have fz: "fill_zero (x # cells) g needed = fill_zero cells g1 (needed - 1)"
        using pos x False by (simp add: g1_def)
      have r1: "rect g1 rows cols" using Cons.prems(1) by (simp add: g1_def)
      have cell1: "g1 ! r' ! c' = (if r' = r \<and> c' = c then (g ! r ! c)\<lparr>isBasin := True, allocation := Some 0\<rparr> else g ! r' ! c')"
        if "r' < rows" "c' < cols" for r' c'
        unfolding g1_def using that hc by (simp add: upd_nth)
      have empty: "allocation (g ! r ! c) = None"
        using False Cons.prems(6) rc by (simp add: wellformed_def)
      have al1: "alloc g1 (r', c') = alloc g (r', c')" if "r' < rows" "c' < cols" for r' c'
        using cell1[OF that] empty by (simp add: alloc_def cell_def)
      have wf1: "wellformed g1 rows cols"
        using cell1 Cons.prems(6) by (simp add: wellformed_def)
      have bs: "basics g1 rows cols = insert (r, c) (basics g rows cols)"
        using cell1 rc by (auto simp: basics_def)
      have "(r, c) \<notin> basics g rows cols" using False by (simp add: basics_def)
      then have card1: "card (basics g1 rows cols) = Suc (card (basics g rows cols))"
        using bs by simp
      have "free_cells g (x # cells) = Suc (free_cells g cells)"
        using False x by (simp add: free_cells_def cell_key_def cell_def)
      moreover have "free_cells g1 cells = free_cells g cells"
        unfolding g1_def using Cons.prems(1) b notin by (rule free_cells_upd)
      ultimately have fr: "nat (needed - 1) \<le> free_cells g1 cells"
        using Cons.prems(5) by simp
      have n1: "0 \<le> needed - 1" using pos by simp
      from Cons.IH[OF r1 d b n1 fr wf1]
      have IH: "rect (fill_zero cells g1 (needed - 1)) rows cols"
        "card (basics (fill_zero cells g1 (needed - 1)) rows cols) = card (basics g1 rows cols) + nat (needed - 1)"
        "\<forall>r<rows. \<forall>c<cols. alloc (fill_zero cells g1 (needed - 1)) (r, c) = alloc g1 (r, c)"
        "wellformed (fill_zero cells g1 (needed - 1)) rows cols"
        by simp_all
      have "card (basics g1 rows cols) + nat (needed - 1) = card (basics g rows cols) + nat needed"
        using card1 pos by simp
      then show ?thesis unfolding fz using IH al1 by simp
    qed
  qed
qed

text \<open>The empty grid, and the invariant before the first loop.\<close>

definition empty_grid :: "int list list \<Rightarrow> nat \<Rightarrow> nat \<Rightarrow> Grid" where
  "empty_grid cs rows cols = map (\<lambda>r. map (\<lambda>c. empty_cell cs r c) [0..<cols]) [0..<rows]"

lemma createEmptyGrid_rect:
  "rect cs rows cols \<Longrightarrow> createEmptyGrid rows cols cs = Inr (empty_grid cs rows cols)"
  by (simp add: createEmptyGrid_def check_costs_def empty_grid_def rect_def list_all_iff)

lemma empty_grid_nth:
  "r < rows \<Longrightarrow> c < cols \<Longrightarrow> empty_grid cs rows cols ! r ! c = empty_cell cs r c"
  by (simp add: empty_grid_def)

lemma rect_empty_grid: "rect (empty_grid cs rows cols) rows cols"
  by (simp add: empty_grid_def rect_def list_all_iff)

lemma lc_inv_initial:
  assumes "length S = rows" "length D = cols" "\<forall>x\<in>set S. 0 \<le> x" "\<forall>x\<in>set D. 0 \<le> x"
    "sum_list S = sum_list D"
  shows "lc_inv rows cols S D {} (empty_grid cs rows cols, S, D, 0)"
proof (rule lc_invI)
  let ?g = "empty_grid cs rows cols"
  have al: "alloc ?g (r, c) = 0" if "r < rows" "c < cols" for r c
    using that by (simp add: alloc_def cell_def empty_grid_nth empty_cell_def)
  show "rect ?g rows cols" by (rule rect_empty_grid)
  show "length S = rows" "length D = cols" "\<forall>x\<in>set S. 0 \<le> x" "\<forall>x\<in>set D. 0 \<le> x"
    "sum_list S = sum_list D" by fact+
  show "\<forall>r<rows. row_total ?g cols r + S ! r = S ! r"
    using al by (simp add: row_total_def)
  show "\<forall>c<cols. col_total ?g rows c + D ! c = D ! c"
    using al by (simp add: col_total_def)
  have b: "basics ?g rows cols = {}"
    by (auto simp: basics_def empty_grid_nth empty_cell_def)
  show "basics ?g rows cols \<subseteq> {}" using b by simp
  show "\<forall>r<rows. \<forall>c<cols. isBasin (?g ! r ! c) = (allocation (?g ! r ! c) \<noteq> None)"
    by (simp add: empty_grid_nth empty_cell_def)
  show "0 = card (basics ?g rows cols)" using b by simp
  have "positives S + positives D \<le> rows + cols"
    using positives_le_length[of S] positives_le_length[of D] assms(1,2) by simp
  then show "0 + (positives S + positives D - 1) \<le> rows + cols - 1" by simp
  show "\<forall>rc\<in>{}. \<not> (0 < S ! fst rc \<and> 0 < D ! snd rc)" by simp
qed

lemma free_cells_count:
  assumes "distinct (map cell_key cells)" "set (map cell_key cells) = set (scan rows cols)"
  shows "free_cells g cells + card (basics g rows cols) = length cells"
proof -
  let ?P = "\<lambda>x. isBasin (cell g (cell_key x))"
  let ?Q = "\<lambda>n. isBasin (cell g n)"
  have "distinct (filter ?Q (map cell_key cells))" using assms(1) by simp
  then have "card (set (filter ?Q (map cell_key cells))) = length (filter ?Q (map cell_key cells))"
    by (rule distinct_card)
  moreover have "length (filter ?Q (map cell_key cells)) = length (filter ?P cells)"
    by (simp add: filter_map comp_def)
  moreover have "set (filter ?Q (map cell_key cells)) = basics g rows cols"
    unfolding set_filter assms(2) by (auto simp: basics_def cell_def)
  ultimately have "length (filter ?P cells) = card (basics g rows cols)" by simp
  moreover have "length (filter ?P cells) + length (filter (\<lambda>x. \<not> ?P x) cells) = length cells"
    by (rule sum_length_filter_compl)
  ultimately show ?thesis by (simp add: free_cells_def)
qed

lemma enough_cells: "0 < rows \<Longrightarrow> 0 < cols \<Longrightarrow> rows + cols - 1 \<le> rows * (cols :: nat)"
proof -
  assume "0 < rows" "0 < cols"
  then obtain a b where "rows = Suc a" "cols = Suc b" by (cases rows; cases cols) auto
  then show ?thesis by simp
qed

lemma least_cost_feasible:
  assumes pos: "0 < rows" "0 < cols" and dims: "rowCount p = rows" "colCount p = cols"
    and cs: "rect (costs p) rows cols"
    and len: "length (initialSupply p) = rows" "length (initialDemand p) = cols"
    and nn: "\<forall>x\<in>set (initialSupply p). 0 \<le> x" "\<forall>x\<in>set (initialDemand p). 0 \<le> x"
    and bal: "sum_list (initialSupply p) = sum_list (initialDemand p)"
  shows "\<exists>g. solveLeastCost p = Inr g \<and> rect g rows cols
           \<and> card (basics g rows cols) = rows + cols - 1
           \<and> (\<forall>r<rows. row_total g cols r = initialSupply p ! r)
           \<and> (\<forall>c<cols. col_total g rows c = initialDemand p ! c)
           \<and> wellformed g rows cols"
proof -
  let ?S = "initialSupply p" and ?D = "initialDemand p"
  define cl where "cl = sorted_cells (costs p) rows cols"
  have keys: "distinct (map cell_key cl)" "set (map cell_key cl) = set (scan rows cols)"
    "length cl = rows * cols"
    unfolding cl_def by (rule sorted_cells_keys)+
  have bounds: "\<forall>x\<in>set cl. fst x < rows \<and> fst (snd x) < cols"
    unfolding cl_def by (rule sorted_cells_bounds)
  obtain g1 s d n where f: "fold allocate_step cl (empty_grid (costs p) rows cols, ?S, ?D, 0) = (g1, s, d, n)"
    by (cases "fold allocate_step cl (empty_grid (costs p) rows cols, ?S, ?D, 0)")
  have "lc_inv rows cols ?S ?D ({} \<union> set (map cell_key cl))
          (fold allocate_step cl (empty_grid (costs p) rows cols, ?S, ?D, 0))"
    using keys(1) bounds by (rule lc_inv_fold) (simp_all add: lc_inv_initial[OF len nn bal])
  then have inv: "lc_inv rows cols ?S ?D (set (scan rows cols)) (g1, s, d, n)"
    unfolding f keys(2) by simp
  note I = lc_invD[OF inv]
  have zero: "\<forall>r<rows. s ! r = 0" "\<forall>c<cols. d ! c = 0"
    using lc_inv_exhausted[OF inv] by simp_all
  have rt: "\<forall>r<rows. row_total g1 cols r = ?S ! r" using I(7) zero(1) by simp
  have ct: "\<forall>c<cols. col_total g1 rows c = ?D ! c" using I(8) zero(2) by simp
  have wf: "wellformed g1 rows cols" using I(10) by (simp add: wellformed_def)
  have cnt: "n \<le> rows + cols - 1" using I(12) by simp
  have res: "solveLeastCost p =
      Inr (if int n < int rows + int cols - 1
           then fill_zero cl g1 (int rows + int cols - 1 - int n) else g1)"
    using f by (simp add: solveLeastCost_def Let_def dims createEmptyGrid_rect[OF cs] cl_def)
  show ?thesis
  proof (cases "int n < int rows + int cols - 1")
    case True
    let ?needed = "int rows + int cols - 1 - int n"
    have nd: "0 \<le> ?needed" "nat ?needed = rows + cols - 1 - n" using True by simp_all
    have "free_cells g1 cl + n = rows * cols"
      using free_cells_count[OF keys(1,2), of g1] I(11) keys(3) by simp
    moreover have "rows + cols - 1 \<le> rows * cols" using pos by (rule enough_cells)
    ultimately have fr: "nat ?needed \<le> free_cells g1 cl" using nd(2) by simp
    from fill_zero_spec[OF I(1) keys(1) bounds nd(1) fr wf]
    have F: "rect (fill_zero cl g1 ?needed) rows cols"
      "card (basics (fill_zero cl g1 ?needed) rows cols) = card (basics g1 rows cols) + nat ?needed"
      "\<forall>r<rows. \<forall>c<cols. alloc (fill_zero cl g1 ?needed) (r, c) = alloc g1 (r, c)"
      "wellformed (fill_zero cl g1 ?needed) rows cols"
      by simp_all
    have c: "card (basics (fill_zero cl g1 ?needed) rows cols) = rows + cols - 1"
      using F(2) I(11) nd(2) cnt by simp
    have r: "row_total (fill_zero cl g1 ?needed) cols r = ?S ! r" if "r < rows" for r
    proof -
      have "row_total (fill_zero cl g1 ?needed) cols r = row_total g1 cols r"
        unfolding row_total_def using F(3) that by (intro sum.cong) simp_all
      then show ?thesis using rt that by simp
    qed
    have k: "col_total (fill_zero cl g1 ?needed) rows c = ?D ! c" if "c < cols" for c
    proof -
      have "col_total (fill_zero cl g1 ?needed) rows c = col_total g1 rows c"
        unfolding col_total_def using F(3) that by (intro sum.cong) simp_all
      then show ?thesis using ct that by simp
    qed
    have "solveLeastCost p = Inr (fill_zero cl g1 ?needed)" using res True by simp
    then show ?thesis using F(1,4) c r k by blast
  next
    case False
    then have "n = rows + cols - 1" using cnt pos by linarith
    then have c: "card (basics g1 rows cols) = rows + cols - 1" using I(11) by simp
    have "solveLeastCost p = Inr g1" using res False by simp
    then show ?thesis using I(1) c rt ct wf by blast
  qed
qed

text \<open>
  The grid returned is of the kind that \<open>applyPivot\<close> expects: an allocation on every
  basic cell, and none on the other cells.
\<close>

lemma wellformed_lists:
  assumes "rect g rows cols" "wellformed g rows cols"
  shows "basics_allocated g" "nonbasics_empty g"
proof -
  have len: "length g = rows" and row: "\<And>r. r < rows \<Longrightarrow> length (g ! r) = cols"
    using assms(1) by (auto simp: rect_def list_all_length)
  have wf: "isBasin (g ! r ! c) = (allocation (g ! r ! c) \<noteq> None)" if "r < rows" "c < cols" for r c
    using assms(2) that by (simp add: wellformed_def)
  show "basics_allocated g"
    unfolding basics_allocated_def list_all_length using len row wf by simp
  show "nonbasics_empty g"
    unfolding nonbasics_empty_def list_all_length using len row wf by simp
qed

lemma solveLeastCost_wellformed:
  assumes "0 < rowCount p" and "0 < colCount p"
    and "rect (costs p) (rowCount p) (colCount p)"
    and "length (initialSupply p) = rowCount p" and "length (initialDemand p) = colCount p"
    and "\<forall>x\<in>set (initialSupply p). 0 \<le> x" and "\<forall>x\<in>set (initialDemand p). 0 \<le> x"
    and "sum_list (initialSupply p) = sum_list (initialDemand p)"
  shows "\<exists>g. solveLeastCost p = Inr g \<and> basics_allocated g \<and> nonbasics_empty g"
proof -
  from least_cost_feasible[OF assms(1,2) refl refl assms(3-8)]
  obtain g where g: "solveLeastCost p = Inr g" "rect g (rowCount p) (colCount p)"
    "wellformed g (rowCount p) (colCount p)"
    by (elim exE conjE)
  then show ?thesis using wellformed_lists[OF g(2,3)] by blast
qed

text \<open>
  Claim C2. Let the problem have at least one row and one column, a cost for every cell,
  one supply for each row and one demand for each column, none of them negative, with the
  same total (a balanced problem), and let \<open>initialSupply\<close> and \<open>initialDemand\<close>, which
  \<open>solveLeastCost\<close> reads, be its supplies and demands. Then \<open>solveLeastCost\<close> returns a
  grid with exactly \<open>rows + cols - 1\<close> basic cells, in which the allocations of every row
  add up to the supply of the row and the allocations of every column to the demand of the
  column.
\<close>

theorem solveLeastCost_feasible:
  assumes "0 < rowCount p" and "0 < colCount p"
    and "rect (costs p) (rowCount p) (colCount p)"
    and "length (supplyVec p) = rowCount p" and "length (demandVec p) = colCount p"
    and "initialSupply p = supplyVec p" and "initialDemand p = demandVec p"
    and "\<forall>x\<in>set (supplyVec p). 0 \<le> x" and "\<forall>x\<in>set (demandVec p). 0 \<le> x"
    and "sum_list (supplyVec p) = sum_list (demandVec p)"
  shows "\<exists>g. solveLeastCost p = Inr g \<and> rect g (rowCount p) (colCount p)
           \<and> card (basics g (rowCount p) (colCount p)) = rowCount p + colCount p - 1
           \<and> (\<forall>r<rowCount p. row_total g (colCount p) r = supplyVec p ! r)
           \<and> (\<forall>c<colCount p. col_total g (rowCount p) c = demandVec p ! c)"
proof -
  have "\<exists>g. solveLeastCost p = Inr g \<and> rect g (rowCount p) (colCount p)
           \<and> card (basics g (rowCount p) (colCount p)) = rowCount p + colCount p - 1
           \<and> (\<forall>r<rowCount p. row_total g (colCount p) r = initialSupply p ! r)
           \<and> (\<forall>c<colCount p. col_total g (rowCount p) c = initialDemand p ! c)
           \<and> wellformed g (rowCount p) (colCount p)"
    using assms by (intro least_cost_feasible) simp_all
  then show ?thesis using assms(6,7) by auto
qed

theorem solveLeastCost_feasible_witness:
  "\<exists>g. solveLeastCost deg_problem = Inr g \<and> rect g 3 3 \<and> card (basics g 3 3) = 5
     \<and> row_total g 3 0 = 20 \<and> col_total g 3 2 = 20"
proof -
  have h: "0 < rowCount deg_problem" "0 < colCount deg_problem"
    "rect (costs deg_problem) (rowCount deg_problem) (colCount deg_problem)"
    "length (supplyVec deg_problem) = rowCount deg_problem"
    "length (demandVec deg_problem) = colCount deg_problem"
    "initialSupply deg_problem = supplyVec deg_problem"
    "initialDemand deg_problem = demandVec deg_problem"
    "\<forall>x\<in>set (supplyVec deg_problem). 0 \<le> x" "\<forall>x\<in>set (demandVec deg_problem). 0 \<le> x"
    "sum_list (supplyVec deg_problem) = sum_list (demandVec deg_problem)"
    by (simp_all add: deg_problem_def rect_def)
  from solveLeastCost_feasible[OF h]
  obtain g where g: "solveLeastCost deg_problem = Inr g"
    "rect g (rowCount deg_problem) (colCount deg_problem)"
    "card (basics g (rowCount deg_problem) (colCount deg_problem))
       = rowCount deg_problem + colCount deg_problem - 1"
    "\<forall>r<rowCount deg_problem. row_total g (colCount deg_problem) r = supplyVec deg_problem ! r"
    "\<forall>c<colCount deg_problem. col_total g (rowCount deg_problem) c = demandVec deg_problem ! c"
    by (elim exE conjE)
  have d: "rowCount deg_problem = 3" "colCount deg_problem = 3" by (simp_all add: deg_problem_def)
  have "row_total g 3 0 = 20" using g(4)[rule_format, of 0] by (simp add: d deg_problem_def)
  moreover have "col_total g 3 2 = 20" using g(5)[rule_format, of 2] by (simp add: d deg_problem_def)
  ultimately show ?thesis using g(1,2,3) unfolding d by (intro exI conjI) simp_all
qed

section \<open>The basis after a pivot\<close>

text \<open>Which cells of the loop are basic after the pivot: all but the leaving cell.\<close>

lemma pivot_loop_basic:
  assumes odd: "odd (length loop)" and dist: "distinct (butlast loop)"
    and cells: "\<forall>n\<in>set loop. is_cell g n"
    and minus: "\<forall>i<length loop - 1. odd i \<longrightarrow> isBasin (cell g (loop ! i))"
    and lv: "lv = Some (loop ! j)" "odd j" "j < length loop"
    and g': "\<forall>m. is_cell g m \<longrightarrow>
        cell g' m = cleanup_cell (enter_cell (loop ! 0) m (leave_cell lv m (cell (moved g loop t) m)))"
    and i: "i < length loop - 1"
  shows "isBasin (cell g' (loop ! i)) = (i \<noteq> j)"
proof -
  let ?n = "loop ! i"
  have ic: "is_cell g ?n" using cells i by simp
  have "j \<noteq> length loop - 1" using lv(2) odd by auto
  then have jl: "j < length loop - 1" using lv(3) by simp
  have nth: "butlast loop ! k = loop ! k" if "k < length loop - 1" for k
    using that by (simp add: nth_butlast)
  have inj: "loop ! k = loop ! i \<longleftrightarrow> k = i" if "k < length loop - 1" for k
    using nth_eq_iff_index_eq[OF dist, of k i] that i nth by simp
  have cg: "cell g' ?n = cleanup_cell (enter_cell (loop ! 0) ?n (leave_cell lv ?n
      (step_cell t i (copy_cell (cell g ?n)))))"
    using g'[rule_format, OF ic] cell_moved_at[OF ic dist i] by simp
  show ?thesis
  proof (cases "even i")
    case True
    then have ij: "i \<noteq> j" using lv(2) by auto
    then have "lv \<noteq> Some ?n" using lv(1) inj[OF jl] by auto
    then show ?thesis
      unfolding cg using True ij
      by (simp add: cleanup_cell_def enter_cell_def leave_cell_def step_cell_def copy_cell_def)
  next
    case False
    then have i0: "0 < i" by (cases i) auto
    then have "0 < length loop - 1" using i by simp
    then have "loop ! 0 \<noteq> ?n" using inj[of 0] i0 by simp
    then have n0: "?n \<noteq> loop ! 0" by simp
    have bas: "isBasin (cell g ?n)" using minus i False by simp
    show ?thesis
    proof (cases "i = j")
      case True
      then have "lv = Some ?n" using lv(1) by simp
      then show ?thesis
        unfolding cg using False n0 True
        by (simp add: cleanup_cell_def enter_cell_def leave_cell_def step_cell_def copy_cell_def)
    next
      case ij: False
      then have "lv \<noteq> Some ?n" using lv(1) inj[OF jl] by auto
      then show ?thesis
        unfolding cg using False n0 bas ij
        by (simp add: cleanup_cell_def enter_cell_def leave_cell_def step_cell_def copy_cell_def)
    qed
  qed
qed

lemma alt_tail: "alt h (x # zs) \<Longrightarrow> alt (\<not> h) zs"
  by (cases zs) simp_all

lemma alt_drop: "alt h (xs @ ys) \<Longrightarrow> alt (h = even (length xs)) ys"
proof (induction xs arbitrary: h)
  case Nil
  then show ?case by simp
next
  case (Cons x xs)
  have "alt (\<not> h) (xs @ ys)" using Cons.prems alt_tail[of h x "xs @ ys"] by simp
  then have "alt ((\<not> h) = even (length xs)) ys" by (rule Cons.IH)
  moreover have "((\<not> h) = even (length xs)) = (h = even (length (x # xs)))" by auto
  ultimately show ?case by simp
qed

text \<open>
  A cell at an odd position of a closed loop has its two nodes joined by the other cells
  of the loop.
\<close>

lemma loop_detour:
  assumes al: "alt True p" and odd: "odd (length p)"
    and hd: "hd p = e" and lst: "last p = e" and dist: "distinct (butlast p)"
    and j: "odd j" "j < length p - 1"
    and sub: "set p \<subseteq> B"
  shows "(Src (fst (p ! j)), Dst (snd (p ! j))) \<in> (links (B - {p ! j}))\<^sup>*"
proof -
  define l where "l = p ! j"
  define xs where "xs = take j (butlast p)"
  define ys where "ys = drop (Suc j) (butlast p)"
  let ?L = "(links (B - {l}))\<^sup>*"
  have pne: "p \<noteq> []" using j(2) by auto
  have jb: "j < length (butlast p)" using j(2) by simp
  have lb: "butlast p ! j = l" using jb by (simp add: l_def nth_butlast)
  have bp: "butlast p = xs @ l # ys"
    unfolding xs_def ys_def lb[symmetric] using jb by (rule id_take_nth_drop)
  have p: "p = xs @ l # ys @ [e]"
    using append_butlast_last_id[OF pne] bp lst by simp
  have lx: "length xs = j" using jb by (simp add: xs_def)
  then have xne: "xs \<noteq> []" using j(1) by (cases xs) auto
  have hdx: "hd xs = e" using p hd xne by (cases xs) simp_all
  have ly: "length p = j + length ys + 2" using p lx by simp
  then have evy: "even (length ys)" using odd j(1) by simp
  have nl: "l \<notin> set xs" "l \<notin> set ys" using dist bp by simp_all
  have subx: "set xs \<subseteq> B - {l}" using sub nl(1) p by auto
  have suby: "set ys \<subseteq> B - {l}" using sub nl(2) p by auto
  have a1: "alt True (xs @ [l])"
  proof -
    have "alt True ((xs @ [l]) @ ys @ [e])" using al p by simp
    then show ?thesis by (rule alt_append_left)
  qed
  have ax: "alt True xs" using a1 by (rule alt_append_left)
  have "move (True = odd (length xs)) (last xs) l" using a1 xne by (rule alt_last_move_snoc)
  then have mx: "move True (last xs) l" using lx j(1) by simp
  have "alt (True = even (length xs)) (l # ys @ [e])"
    using al p alt_drop[of True xs "l # ys @ [e]"] by simp
  then have a2: "alt False (l # ys @ [e])" using lx j(1) by simp
  text \<open>From the column of the entering cell to the row of \<open>l\<close>, along \<open>xs\<close>.\<close>
  have "xs = hd xs # tl xs" using xne by simp
  then have "(entry True (hd xs), exit_node (True = even (length (tl xs))) (last xs)) \<in> ?L"
    using alt_links[of True "hd xs" "tl xs" "B - {l}"] ax subx by simp
  moreover have "even (length (tl xs))" using lx j(1) by simp
  ultimately have "(entry True e, exit_node True (last xs)) \<in> ?L" using hdx by simp
  then have c1: "(Dst (snd e), Src (fst l)) \<in> ?L"
    using mx by (simp add: entry_def exit_node_def move_def)
  text \<open>From the column of \<open>l\<close> to the column of the entering cell, along \<open>ys\<close>.\<close>
  have c2: "(Dst (snd l), Dst (snd e)) \<in> ?L"
  proof (cases ys)
    case Nil
    then have "move False l e" using a2 by simp
    then show ?thesis by (simp add: move_def)
  next
    case (Cons y ys')
    have my: "move False l y" and ay: "alt True (ys @ [e])" using a2 Cons by simp_all
    have ay': "alt True ys" using ay by (rule alt_append_left)
    have yne: "ys \<noteq> []" using Cons by simp
    have "move (True = odd (length ys)) (last ys) e" using ay yne by (rule alt_last_move_snoc)
    then have me: "move False (last ys) e" using evy by simp
    have "(entry True y, exit_node (True = even (length ys')) (last (y # ys'))) \<in> ?L"
      using alt_links[of True y ys' "B - {l}"] ay' suby Cons by simp
    moreover have "odd (length ys')" using evy Cons by simp
    ultimately have "(entry True y, exit_node False (last ys)) \<in> ?L" using Cons by simp
    then show ?thesis using my me by (simp add: entry_def exit_node_def move_def)
  qed
  have "(Dst (snd l), Src (fst l)) \<in> ?L" using c2 c1 by (rule rtrancl_trans)
  then have "(Src (fst l), Dst (snd l)) \<in> ?L" by (rule links_rtrancl_sym)
  then show ?thesis by (simp add: l_def)
qed

text \<open>
  On a grid that satisfies the basis invariant, the pivot along the loop that \<open>findLoop\<close>
  returns for a non-basic cell keeps the invariant: the entering cell replaces the leaving
  cell, which lies on the loop, so the basic cells stay connected, and they are as many as
  before.
\<close>

lemma applyPivot_preserves_invariant:
  assumes r: "rect g rows cols" and inv: "basis_invariant g rows cols"
    and ba: "basics_allocated g"
    and st: "is_cell g start" "\<not> isBasin (cell g start)"
    and fl: "findLoop start g = Inr (Some p)"
  shows "\<exists>g' t. applyPivot g p = Inr (g', Fin t) \<and> rect g' rows cols \<and> basis_invariant g' rows cols"
proof -
  let ?B = "basics g rows cols"
  have inb: "is_cell g n \<longleftrightarrow> fst n < rows \<and> snd n < cols" for n
    using rect_has_cell[OF r] by (simp add: is_cell_def)
  have rows: "0 < rows" using st(1) inb by auto
  from findLoop_tree[OF r rows inv st]
  have cl: "closed_ok g rows cols start True p" and odd: "odd (length p)"
    using fl by auto
  have len: "4 \<le> length p" and lst: "last p = start" and al: "alt True p"
    and po: "path_ok g rows cols start True (butlast p)"
    using cl by (simp_all add: closed_ok_def)
  have dist: "distinct (butlast p)" and hdb: "hd (butlast p) = start" and bne: "butlast p \<noteq> []"
    and pin: "\<forall>n\<in>set (butlast p). fst n < rows \<and> snd n < cols"
    and pbas: "\<forall>n\<in>set (tl (butlast p)). isBasin (g ! fst n ! snd n)"
    using po by (simp_all add: path_ok_def)
  have pne: "p \<noteq> []" using len by auto
  have "hd p = hd (butlast p)" using bne by (cases p) (auto split: if_splits)
  then have hd: "hd p = start" using hdb by simp
  have len3: "3 \<le> length p" using len by simp
  define q where "q = tl (butlast p)"
  note sh = loop_shape[OF hd lst len3, folded q_def]
  have setp: "set p = insert start (set q)" "set (butlast p) = insert start (set q)"
  proof -
    show "set (butlast p) = insert start (set q)" using sh(2) by (metis list.simps(15))
    have "set p = set (start # q @ [start])" using sh(1) by simp
    then show "set p = insert start (set q)" by auto
  qed
  have qB: "set q \<subseteq> ?B"
  proof
    fix n assume n: "n \<in> set q"
    then have "n \<in> set (butlast p)" using setp(2) by simp
    then have "fst n < rows \<and> snd n < cols" using pin by blast
    moreover have "isBasin (g ! fst n ! snd n)" using pbas n unfolding q_def by blast
    ultimately show "n \<in> ?B" by (simp add: basics_iff)
  qed
  have cells: "\<forall>n\<in>set p. is_cell g n" using setp pin inb by auto
  have nth: "butlast p ! k = p ! k" if "k < length p - 1" for k
    using that by (simp add: nth_butlast)
  have tlq: "p ! k \<in> set q" if "0 < k" "k < length p - 1" for k
  proof -
    have "butlast p ! k = q ! (k - 1)" using sh(2) that by (metis nth_Cons_pos)
    moreover have "k - 1 < length q" using sh(3) that by simp
    ultimately show ?thesis using nth[OF that(2)] by (metis nth_mem)
  qed
  have minus: "\<forall>i<length p - 1. odd i \<longrightarrow> isBasin (cell g (p ! i))"
  proof (intro allI impI)
    fix i assume i: "i < length p - 1" "odd i"
    then have "0 < i" by (cases i) auto
    then have "p ! i \<in> ?B" using tlq i(1) qB by blast
    then show "isBasin (cell g (p ! i))" by (simp add: basics_iff cell_def)
  qed
  have one: "1 < length p - 1" using len by simp
  have "isBasin (cell g (p ! 1))" using minus one by simp
  moreover have "is_cell g (p ! 1)" using cells one by simp
  ultimately have a1: "allocation (cell g (p ! 1)) \<noteq> None"
    using basics_allocated_cell[OF ba] by blast
  obtain th lv where ft: "find_theta g p = (th, lv)" by (cases "find_theta g p")
  have "lv \<noteq> None"
  proof
    assume "lv = None"
    then have "allocation (cell g (p ! 1)) = None"
      using find_theta_char[OF ft] one by auto
    then show False using a1 by simp
  qed
  then obtain l where lv: "lv = Some l" by blast
  then obtain t j where tj: "th = Fin t" "odd j" "j < length p" "l = p ! j"
    using find_theta_char[OF ft] by auto
  have "j \<noteq> length p - 1" using tj(2) odd by auto
  then have jl: "j < length p - 1" using tj(3) by simp
  have j0: "0 < j" using tj(2) by (cases j) auto
  have lq: "l \<in> set q" using tlq[OF j0 jl] tj(4) by simp
  then have lB: "l \<in> ?B" using qB by blast
  have stB: "start \<notin> ?B" using st(2) by (simp add: basics_iff cell_def)
  have lst': "l \<noteq> start" using lB stB by auto
  have lin: "l \<in> set p" using lq setp(1) by simp
  have tc: "\<forall>n\<in>set (touched p). is_cell g n" using cells touched_subset by blast
  from applyPivot_finite[OF pne tc ft[unfolded tj(1)]]
  obtain g' where g': "applyPivot g p = Inr (g', Fin t)" "length g' = length g"
    "\<forall>r<length g. length (g' ! r) = length (g ! r)"
    "\<forall>m. is_cell g m \<longrightarrow>
        cell g' m = cleanup_cell (enter_cell (p ! 0) m (leave_cell lv m (cell (moved g p t) m)))"
    by (elim exE conjE)
  have r': "rect g' rows cols"
    using r g'(2,3) by (simp add: rect_def list_all_length)
  text \<open>The basic cells after the pivot.\<close>
  have on: "isBasin (cell g' n) = (n \<noteq> l)" if mem: "n \<in> set (butlast p)" for n
  proof -
    obtain i where i: "i < length (butlast p)" "butlast p ! i = n"
      using mem unfolding in_set_conv_nth by blast
    then have il: "i < length p - 1" by simp
    have n: "n = p ! i" using i(2) nth[OF il] by simp
    have "(p ! i = p ! j) = (i = j)"
      using nth_eq_iff_index_eq[OF dist, of i j] il jl nth by simp
    then show ?thesis
      using pivot_loop_basic[OF odd dist cells minus lv[unfolded tj(4)] tj(2,3) g'(4) il]
      unfolding n tj(4) by simp
  qed
  have off: "isBasin (cell g' n) = isBasin (cell g n)" if "is_cell g n" "n \<notin> set p" for n
  proof -
    have "n \<notin> (\<lambda>i. p ! i) ` set [0..<length p - 1]" using that(2) by auto
    then have "cell (moved g p t) n = copy_cell (cell g n)"
      using that(1) by (simp add: moved_def cell_fold_apply_other cell_map)
    moreover have "n \<noteq> p ! 0" "lv \<noteq> Some n" using that(2) pne lin lv by auto
    ultimately have "cell g' n = cleanup_cell (copy_cell (cell g n))"
      using g'(4)[rule_format, OF that(1)] by (simp add: enter_cell_def leave_cell_def)
    then show ?thesis by (simp add: cleanup_cell_def copy_cell_def)
  qed
  have B': "basics g' rows cols = insert start (?B - {l})"
  proof (rule set_eqI)
    fix n
    show "n \<in> basics g' rows cols \<longleftrightarrow> n \<in> insert start (?B - {l})"
    proof (cases "is_cell g n")
      case False
      then have "n \<notin> basics g' rows cols" "n \<notin> ?B" "n \<noteq> start"
        using inb st(1) by (auto simp: basics_iff)
      then show ?thesis by simp
    next
      case True
      then have b': "n \<in> basics g' rows cols \<longleftrightarrow> isBasin (cell g' n)"
        and b: "n \<in> ?B \<longleftrightarrow> isBasin (cell g n)"
        using inb by (simp_all add: basics_iff cell_def)
      show ?thesis
      proof (cases "n \<in> set p")
        case inp: True
        then have "n \<in> set (butlast p)" using setp by simp
        then have "isBasin (cell g' n) = (n \<noteq> l)" by (rule on)
        moreover have "n = start \<or> n \<in> ?B" using inp setp(1) qB by auto
        ultimately show ?thesis using b' lst' by auto
      next
        case outp: False
        then have "isBasin (cell g' n) = isBasin (cell g n)" using True off by simp
        moreover have "n \<noteq> l" "n \<noteq> start" using outp lin setp(1) by auto
        ultimately show ?thesis using b b' by simp
      qed
    qed
  qed
  have fin: "finite ?B" by simp
  have "card (insert start (?B - {l})) = Suc (card (?B - {l}))"
    using stB fin by simp
  also have "\<dots> = card ?B" using card.remove[OF fin lB] by simp
  finally have card': "card (basics g' rows cols) + 1 = rows + cols"
    using inv B' by (simp add: basis_invariant_def)
  text \<open>They are connected.\<close>
  let ?B1 = "insert start ?B"
  have sub1: "set p \<subseteq> ?B1" using setp(1) qB by auto
  have "(Src (fst (p ! j)), Dst (snd (p ! j))) \<in> (links (?B1 - {p ! j}))\<^sup>*"
    using al odd hd lst dist tj(2) jl sub1 by (rule loop_detour)
  then have "(Src (fst l), Dst (snd l)) \<in> (links (?B1 - {(fst l, snd l)}))\<^sup>*"
    using tj(4) by simp
  then have re: "(links ?B1)\<^sup>* \<subseteq> (links (?B1 - {(fst l, snd l)}))\<^sup>*" by (rule reroute)
  have eqB: "?B1 - {(fst l, snd l)} = basics g' rows cols" using B' lst' by auto
  have "(links ?B)\<^sup>* \<subseteq> (links ?B1)\<^sup>*"
    by (intro rtrancl_mono links_mono) auto
  then have up: "(links ?B)\<^sup>* \<subseteq> (links (basics g' rows cols))\<^sup>*" using re eqB by simp
  have conn: "\<forall>y\<in>nodes rows cols. (Src 0, y) \<in> (links (basics g' rows cols))\<^sup>*"
  proof
    fix y assume y: "y \<in> nodes rows cols"
    have "Src 0 \<in> nodes rows cols" using rows by (simp add: nodes_def)
    then have "(Src 0, y) \<in> (links ?B)\<^sup>*"
      using inv y by (simp add: basis_invariant_def connected_basis_def)
    then show "(Src 0, y) \<in> (links (basics g' rows cols))\<^sup>*" using up by blast
  qed
  have "basis_invariant g' rows cols" using rows card' conn by (rule basis_invariantI)
  then show ?thesis using g'(1) r' by blast
qed

section \<open>Claim C1: the basis that \<open>solveLeastCost\<close> returns\<close>

text \<open>
  The basic cells of the grid that \<open>solveLeastCost\<close> returns for \<open>deg_problem\<close>: the three
  cells of the first loop and the two cells, \<open>(0,1)\<close> and \<open>(1,0)\<close>, that the second loop
  makes basic because they are the cheapest cells left, without regard to the cells that
  are basic already.
\<close>

lemma scan_3_3:
  "scan 3 3 = [(0, 0), (0, 1), (0, 2), (1, 0), (1, 1), (1, 2), (2, 0), (2, 1), (2, 2)]"
  by code_simp

lemma basics_deg_grid: "basics deg_grid 3 3 = {(0, 0), (0, 1), (1, 0), (1, 1), (2, 2)}"
  by (simp add: basics_scan scan_3_3 deg_grid_def mk_cell_def)

lemma deg_grid_closed:
  assumes "(x, y) \<in> (links (basics deg_grid 3 3))\<^sup>*" and "x \<in> {Src 0, Src 1, Dst 0, Dst 1}"
  shows "y \<in> {Src 0, Src 1, Dst 0, Dst 1}"
  using assms
proof (induction rule: rtrancl_induct)
  case base
  then show ?case by simp
next
  case (step y z)
  from step.hyps(2) step.IH[OF step.prems] show ?case
    by (auto simp: basics_deg_grid links_def)
qed

lemma deg_grid_cut_off: "(Src 0, Src 2) \<notin> (links (basics deg_grid 3 3))\<^sup>*"
  using deg_grid_closed[of "Src 0" "Src 2"] by auto

lemma deg_grid_cycle: "(Src 0, Dst 0) \<in> (links (basics deg_grid 3 3 - {(0, 0)}))\<^sup>*"
proof -
  let ?L = "links (basics deg_grid 3 3 - {(0, 0)})"
  have "(Src 0, Dst 1) \<in> ?L" "(Dst 1, Src 1) \<in> ?L" "(Src 1, Dst 0) \<in> ?L"
    by (auto simp: basics_deg_grid links_def)
  then show ?thesis by (meson rtrancl.simps)
qed

lemma deg_grid_not_invariant:
  "\<not> connected_basis (basics deg_grid 3 3) 3 3" "\<not> acyclic_basis (basics deg_grid 3 3)"
  "\<not> basis_invariant deg_grid 3 3"
proof -
  have "Src 0 \<in> nodes 3 3" "Src 2 \<in> nodes 3 3" by (simp_all add: nodes_def)
  then show c: "\<not> connected_basis (basics deg_grid 3 3) 3 3"
    using deg_grid_cut_off unfolding connected_basis_def by blast
  have "(0, 0) \<in> basics deg_grid 3 3" by (simp add: basics_deg_grid)
  then show "\<not> acyclic_basis (basics deg_grid 3 3)"
    using deg_grid_cycle unfolding acyclic_basis_def by force
  show "\<not> basis_invariant deg_grid 3 3" using c by (simp add: basis_invariant_def)
qed

text \<open>
  Claim C1 has two parts. The second holds: on a grid that satisfies the basis invariant,
  \<open>applyPivot\<close> along the loop found for a non-basic cell returns a grid that satisfies
  it (\<open>applyPivot_preserves_invariant\<close>). The first says that the grid returned by
  \<open>solveLeastCost\<close> for a balanced problem has \<open>rows + cols - 1\<close> basic cells that form
  a spanning tree. For the balanced problem \<open>deg_problem\<close> the grid returned has the five
  basic cells \<open>(0,0)\<close>, \<open>(0,1)\<close>, \<open>(1,0)\<close>, \<open>(1,1)\<close>, \<open>(2,2)\<close>, and they do not form a
  spanning tree: source 0 and source 2 are not joined by basic cells (the graph is not
  connected), and the two nodes of the basic cell \<open>(0,0)\<close> are joined by the other basic
  cells (the cell lies on a cycle).
\<close>

theorem solveLeastCost_not_a_tree:
  "solveLeastCost deg_problem = Inr deg_grid
   \<and> basics deg_grid 3 3 = {(0, 0), (0, 1), (1, 0), (1, 1), (2, 2)}
   \<and> (Src 0, Src 2) \<notin> (links (basics deg_grid 3 3))\<^sup>*
   \<and> (Src 0, Dst 0) \<in> (links (basics deg_grid 3 3 - {(0, 0)}))\<^sup>*"
  using solveLeastCost_deg basics_deg_grid deg_grid_cut_off deg_grid_cycle by simp

section \<open>Claim C8: single steps and the full iteration\<close>

text \<open>
  The step handler \<open>handleNextStep\<close> of the application component
  (src/unnamed/part\_003) passes React's state setter an updater from the previous state
  to the next; the model is this updater, for a given problem. The fields \<open>message\<close> and
  \<open>stepDescription\<close> of the state (texts for the user) and the calls of \<open>addLog\<close> are
  left out.
\<close>

datatype SolverStatus = Input | Ready | Potentials | Deltas | Loop | Optimal

record SolverState =
  grid :: Grid
  u :: "int option list"
  v :: "int option list"
  totalCost :: int
  status :: SolverStatus
  iteration :: nat

text \<open>
  The entering node is looked up by its highlight: \<open>{r: -1, c: -1}\<close> (here \<open>None\<close>) unless
  a cell is highlighted \<open>'entering'\<close>; the last such cell in scan order wins.
\<close>

definition find_entering :: "Grid \<Rightarrow> LoopNode option" where
  "find_entering g =
     fold (\<lambda>rw acc. fold (\<lambda>x acc. if highlight x = Some Entering then Some (row x, col x) else acc) rw acc)
       g None"

text \<open>
  \<open>findLoop\<close> at the node found. At \<open>{r: -1, c: -1}\<close> it throws on every grid: on an empty
  grid at \<open>grid[0].length\<close>; on a grid with a column at the first candidate of the row
  move, \<open>grid[-1][0].isBasin\<close>; on a grid of empty rows the row move has no candidate, and
  the first candidate of the column move is \<open>grid[0][-1].isBasin\<close>.
\<close>

definition findLoop_at :: "LoopNode option \<Rightarrow> Grid \<Rightarrow> error + LoopNode list option" where
  "findLoop_at node g = (case node of None \<Rightarrow> Inl TypeError | Some start \<Rightarrow> findLoop start g)"

text \<open>
  \<open>loop.forEach((node, idx) => ...)\<close> of the \<open>'deltas'\<close> step: every node but the one at
  index 0 is highlighted, \<open>'loop-plus'\<close> at an even index and \<open>'loop-minus'\<close> at an odd one.
\<close>

definition mark_step :: "LoopNode list \<Rightarrow> nat \<Rightarrow> Grid \<Rightarrow> Grid" where
  "mark_step loop idx g =
     (if idx = 0 then g
      else upd g (fst (loop ! idx)) (snd (loop ! idx))
             (\<lambda>x. x\<lparr>highlight := Some (if even idx then LoopPlus else LoopMinus)\<rparr>))"

definition mark_loop :: "LoopNode list \<Rightarrow> Grid \<Rightarrow> error + Grid" where
  "mark_loop loop g =
     (if list_ex (\<lambda>node. \<not> has_cell g (fst node) (snd node)) (tl loop) then Inl TypeError
      else Inr (fold (mark_step loop) [0..<length loop] g))"

definition handleNextStep :: "ProblemState \<Rightarrow> SolverState \<Rightarrow> error + SolverState" where
  "handleNextStep problem prev =
     (case status prev of
        Ready \<Rightarrow>
          (case calculatePotentials (grid prev) (rowCount problem) (colCount problem) of
             Inl e \<Rightarrow> Inl e
           | Inr (pu, pv) \<Rightarrow> Inr (prev\<lparr>u := pu, v := pv, status := Potentials\<rparr>))
      | Potentials \<Rightarrow>
          (case calculateOpportunityCosts (grid prev) (u prev) (v prev) of
             Inl e \<Rightarrow> Inl e
           | Inr (gridWithDeltas, minDelta, enteringCell) \<Rightarrow>
               if jsnum_ge0 minDelta then Inr (prev\<lparr>grid := gridWithDeltas, status := Optimal\<rparr>)
               else
                 (let marked =
                        (case enteringCell of
                           None \<Rightarrow> gridWithDeltas
                         | Some node \<Rightarrow>
                             upd gridWithDeltas (fst node) (snd node) (\<lambda>x. x\<lparr>highlight := Some Entering\<rparr>))
                  in Inr (prev\<lparr>grid := marked, status := Deltas\<rparr>)))
      | Deltas \<Rightarrow>
          (case findLoop_at (find_entering (grid prev)) (grid prev) of
             Inl e \<Rightarrow> Inl e
           | Inr None \<Rightarrow> Inr prev
           | Inr (Some loop) \<Rightarrow>
               (case mark_loop loop (grid prev) of
                  Inl e \<Rightarrow> Inl e
                | Inr gridWithLoop \<Rightarrow> Inr (prev\<lparr>grid := gridWithLoop, status := Loop\<rparr>)))
      | Loop \<Rightarrow>
          (case findLoop_at (find_entering (grid prev)) (grid prev) of
             Inl e \<Rightarrow> Inl e
           | Inr None \<Rightarrow> Inr prev
           | Inr (Some loopToApply) \<Rightarrow>
               (case applyPivot (grid prev) loopToApply of
                  Inl e \<Rightarrow> Inl e
                | Inr (newGrid, theta) \<Rightarrow>
                    Inr (prev\<lparr>grid := map (map clean_cell) newGrid,
                               totalCost := calculateTotalCost newGrid,
                               u := replicate (rowCount problem) None,
                               v := replicate (colCount problem) None,
                               status := Ready,
                               iteration := iteration prev + 1\<rparr>)))
      | _ \<Rightarrow> Inr prev)"

text \<open>Successive calls of the handler; an exception ends the sequence.\<close>

fun steps :: "nat \<Rightarrow> ProblemState \<Rightarrow> SolverState \<Rightarrow> error + SolverState" where
  "steps 0 problem s = Inr s"
| "steps (Suc n) problem s =
     (case handleNextStep problem s of Inl e \<Rightarrow> Inl e | Inr s' \<Rightarrow> steps n problem s')"

definition ex_problem :: ProblemState where
  "ex_problem =
     \<lparr> costs = [[1, 2], [2, 10]], supplyVec = [10, 10], demandVec = [10, 10],
       initialSupply = [10, 10], initialDemand = [10, 10], rowCount = 2, colCount = 2 \<rparr>"

definition ex_ready :: SolverState where
  "ex_ready = \<lparr> grid = ex_grid, u = [None, None], v = [None, None], totalCost = 110,
                status = Ready, iteration = 1 \<rparr>"

lemma solveLeastCost_ex: "solveLeastCost ex_problem = Inr ex_grid"
  by code_simp

lemma ex_total: "calculateTotalCost ex_grid = 110"
  by code_simp

text \<open>The state after three steps: every cell of the loop is highlighted as a loop cell.\<close>

definition ex_loop_state :: SolverState where
  "ex_loop_state =
     \<lparr> grid = [[(mk_cell 0 0 1 (Some 10) True)\<lparr>highlight := Some LoopMinus\<rparr>,
                (mk_cell 0 1 2 (Some 0) True)\<lparr>highlight := Some LoopPlus\<rparr>],
               [(mk_cell 1 0 2 None False)\<lparr>highlight := Some LoopPlus, opportunityCost := Some (- 7)\<rparr>,
                (mk_cell 1 1 10 (Some 10) True)\<lparr>highlight := Some LoopMinus\<rparr>]],
       u = [Some 0, Some 8], v = [Some 1, Some 2], totalCost = 110, status = Loop, iteration = 1 \<rparr>"

lemma steps_three: "steps 3 ex_problem ex_ready = Inr ex_loop_state"
  by code_simp

lemma no_entering_left: "find_entering (grid ex_loop_state) = None"
  by code_simp

lemma steps_four: "steps 4 ex_problem ex_ready = Inl TypeError"
  by code_simp

lemma performFullIteration_ex:
  "performFullIteration ex_grid 2 2 =
     Inr (NotOptimal [[mk_cell 0 0 1 (Some 0) True, mk_cell 0 1 2 (Some 10) True],
                      [mk_cell 1 0 2 (Some 10) True, mk_cell 1 1 10 None False]] 40 (Fin 10))"
  by code_simp

text \<open>
  Claim C8 fails on the code. From the ready state of the running example,
  \<open>performFullIteration\<close> pivots: it returns the next grid, of cost 40, with
  \<open>\<theta> = 10\<close>. The single steps reach the status \<open>'loop'\<close> after three calls, but the
  third call has highlighted the entering cell as a loop cell: the loop that \<open>findLoop\<close>
  returns ends with the entering cell again, at an even index other than 0, and
  the marking overwrites \<open>'entering'\<close> by \<open>'loop-plus'\<close>. The fourth call finds no
  entering cell, searches a loop from \<open>{r: -1, c: -1}\<close> and throws; no pivot is applied.
\<close>

theorem handleNextStep_fourth_step_throws:
  "(\<exists>g' k \<theta>. performFullIteration ex_grid 2 2 = Inr (NotOptimal g' k \<theta>))
   \<and> (\<exists>s. steps 3 ex_problem ex_ready = Inr s \<and> status s = Loop \<and> find_entering (grid s) = None)
   \<and> steps 4 ex_problem ex_ready = Inl TypeError"
proof -
  have "status ex_loop_state = Loop" by (simp add: ex_loop_state_def)
  then show ?thesis
    using performFullIteration_ex steps_three no_entering_left steps_four by simp
qed

end
